theory Spec2Isabelle
  imports Main "HOL-Library.AList"
begin

section \<open>Python values and dictionaries\<close>

text \<open>
  A value decoded from one line of JSON. Floats are carried as their literal text: no
  operation of the program looks inside a number. A decoded object is an association
  list in the order of its keys, as a Python dict keeps insertion order.
\<close>

datatype json =
    JNull
  | JBool bool
  | JInt int
  | JFloat string
  | JStr string
  | JArr "json list"
  | JObj "(string \<times> json) list"

text \<open>
  A Python dict is an association list with distinct keys, in insertion order.
  \<^verbatim>\<open>d[k] = v\<close> is \<^const>\<open>AList.update\<close> (the value is replaced in place when the key
  is present, the pair is appended otherwise), \<^verbatim>\<open>del d[k]\<close> is \<^const>\<open>AList.delete\<close>,
  \<^verbatim>\<open>k in d\<close> and \<^verbatim>\<open>d[k]\<close> read \<^const>\<open>map_of\<close>.
\<close>

definition dict_update :: "('k \<times> 'v) list \<Rightarrow> ('k \<times> 'v) list \<Rightarrow> ('k \<times> 'v) list" where
  \<comment> \<open>\<^verbatim>\<open>d.update(other)\<close>: the pairs of \<open>other\<close> are stored one by one, in order.\<close>
  "dict_update d other = fold (\<lambda>(k, v). AList.update k v) other d"

text \<open>The exceptions the manager's code can meet, by class.\<close>

datatype exn =
    PyException string  \<comment> \<open>\<^verbatim>\<open>Exception(msg)\<close>, raised by \<^verbatim>\<open>call_tool\<close> itself\<close>
  | TypeError
  | AttributeError
  | KeyError
  | JSONDecodeError
  | RecursionError
  | UnicodeDecodeError
  | UnicodeEncodeError
  | BrokenPipeError
  | OSError string  \<comment> \<open>what \<^verbatim>\<open>subprocess.Popen\<close> raised, with its cause\<close>

section \<open>Server configurations\<close>

text \<open>
  \<^verbatim>\<open>
  @dataclass
  class MCPServer:
      name: str
      command: List[str]
      args: List[str] = None
      env: Dict[str, str] = None
      description: str = ""
      def __post_init__(self):
          if self.args is None: self.args = []
          if self.env is None: self.env = {}
  \<close>
  The fields \<open>args\<close> and \<open>env\<close> can hold \<^verbatim>\<open>None\<close>, so they are options.
\<close>

record MCPServer =
  name :: string
  command :: "string list"
  args :: "string list option"
  env :: "(string \<times> string) list option"
  description :: string

definition post_init :: "MCPServer \<Rightarrow> MCPServer" where
  "post_init s =
     (let s1 = (if args s = None then s\<lparr>args := Some []\<rparr> else s);
          s2 = (if env s1 = None then s1\<lparr>env := Some []\<rparr> else s1)
      in s2)"

definition new_MCPServer ::
  "string \<Rightarrow> string list \<Rightarrow> string list option \<Rightarrow> (string \<times> string) list option \<Rightarrow> string
     \<Rightarrow> MCPServer" where
  \<comment> \<open>The generated \<^verbatim>\<open>__init__\<close>: the fields are assigned (an omitted \<open>args\<close> or \<open>env\<close> is
      \<^verbatim>\<open>None\<close>), then \<^verbatim>\<open>__post_init__\<close> runs.\<close>
  "new_MCPServer n c a e d =
     post_init \<lparr>name = n, command = c, args = a, env = e, description = d\<rparr>"

section \<open>Child processes\<close>

text \<open>
  The pipe from a child is opened with \<^verbatim>\<open>text=True\<close>. One non-empty line of it is either
  not UTF-8, so that \<^verbatim>\<open>readline()\<close> itself raises, or a line of text, taken by what
  \<^verbatim>\<open>json.loads(response.strip())\<close> does with it: the text is not JSON (a blank line
  included), or it nests deeper than the interpreter's stack allows, or it decodes to a
  value.
\<close>

datatype text_line = Not_json | Too_deep | Json json

datatype reply = Not_utf8 | Text text_line

text \<open>The three requests the client writes, one JSON object per line.\<close>

datatype request =
    Initialize
  | ToolsList
  | ToolsCall string json

text \<open>
  A child process: whether it is still running (\<^verbatim>\<open>poll() is None\<close>), the requests written
  to its stdin so far, the lines it will still emit on stdout, in order and one for each
  \<^verbatim>\<open>readline()\<close>, whether it closes its stdout after them (if it does not, it keeps the
  stream open and writes nothing more), and whether \<^verbatim>\<open>SIGTERM\<close> has been sent to it.
\<close>

record process =
  alive :: bool
  written :: "request list"
  pending :: "reply list"
  closes_stdout :: bool
  signalled :: bool

datatype log_entry =
    Info_added string  \<comment> \<open>\<^verbatim>\<open>Added MCP server: {name}\<close>\<close>
  | Error_not_found string  \<comment> \<open>\<^verbatim>\<open>Server {name} not found\<close>\<close>
  | Info_started string  \<comment> \<open>\<^verbatim>\<open>Started MCP server: {name}\<close>\<close>
  | Error_start_failed string exn  \<comment> \<open>\<^verbatim>\<open>Failed to start server {name}: {e}\<close>\<close>
  | Info_initialized string json  \<comment> \<open>\<^verbatim>\<open>Server {name} initialized: {data}\<close>\<close>
  | Error_initialize_failed string exn  \<comment> \<open>\<^verbatim>\<open>Failed to initialize server {name}: {e}\<close>\<close>
  | Info_got_tools nat string  \<comment> \<open>\<^verbatim>\<open>Got {len(tools)} tools from {name}\<close>\<close>
  | Error_get_tools_failed string exn  \<comment> \<open>\<^verbatim>\<open>Failed to get tools from {name}: {e}\<close>\<close>
  | Error_call_tool_failed string string exn
      \<comment> \<open>\<^verbatim>\<open>Failed to call tool {tool_name} on {server_name}: {e}\<close>\<close>
  | Info_stopped string  \<comment> \<open>\<^verbatim>\<open>Stopped MCP server: {name}\<close>\<close>

text \<open>
  What lies outside the manager object: every child spawned so far (a \<^verbatim>\<open>Popen\<close> handle
  is the child's index in \<open>procs\<close>) and the lines handed to the logger.
\<close>

record world =
  procs :: "process list"
  logged :: "log_entry list"

definition log :: "log_entry \<Rightarrow> world \<Rightarrow> world" where
  "log e w = w\<lparr>logged := logged w @ [e]\<rparr>"

definition write_line :: "nat \<Rightarrow> request \<Rightarrow> world \<Rightarrow> exn + world" where
  \<comment> \<open>\<^verbatim>\<open>process.stdin.write(...); process.stdin.flush()\<close>: the pipe of a child that has
      exited is broken.\<close>
  "write_line h r w =
     (let p = procs w ! h
      in if alive p then Inr (w\<lparr>procs := (procs w)[h := p\<lparr>written := written p @ [r]\<rparr>]\<rparr>)
         else Inl BrokenPipeError)"

text \<open>
  A call that does not return has the result \<open>None\<close>; the world, and the manager where
  there is one, are then those of the moment where the call stands still.
\<close>

definition readline :: "nat \<Rightarrow> world \<Rightarrow> (exn + text_line option) option \<times> world" where
  \<comment> \<open>\<^verbatim>\<open>process.stdout.readline()\<close>: at the end of the stream it returns the empty string,
      here \<open>Inr None\<close>; on an open stream without a line it waits, and does not return.\<close>
  "readline h w =
     (let p = procs w ! h
      in case pending p of
           [] \<Rightarrow> (if closes_stdout p then Some (Inr None) else None, w)
         | l # ls \<Rightarrow>
             (case l of
                Not_utf8 \<Rightarrow> Some (Inl UnicodeDecodeError)
              | Text t \<Rightarrow> Some (Inr (Some t)),
              w\<lparr>procs := (procs w)[h := p\<lparr>pending := ls\<rparr>]\<rparr>))"

definition loads :: "text_line \<Rightarrow> exn + json" where
  "loads l =
     (case l of
        Not_json \<Rightarrow> Inl JSONDecodeError
      | Too_deep \<Rightarrow> Inl RecursionError
      | Json v \<Rightarrow> Inr v)"

section \<open>The manager\<close>

record MCPManager =
  servers :: "(string \<times> MCPServer) list"
  active_connections :: "(string \<times> nat) list"
  available_tools :: "(string \<times> json) list"

definition init_manager :: MCPManager where
  "init_manager = \<lparr>servers = [], active_connections = [], available_tools = []\<rparr>"

definition add_server :: "MCPServer \<Rightarrow> MCPManager \<Rightarrow> world \<Rightarrow> MCPManager \<times> world" where
  "add_server server m w =
     (m\<lparr>servers := AList.update (name server) server (servers m)\<rparr>,
      log (Info_added (name server)) w)"

text \<open>Python's \<^verbatim>\<open>key in value\<close>, \<^verbatim>\<open>value[key]\<close> and \<^verbatim>\<open>len(value)\<close> on a decoded value.\<close>

fun is_infix :: "string \<Rightarrow> string \<Rightarrow> bool" where
  "is_infix p [] = (p = [])"
| "is_infix p (c # s) = (take (length p) (c # s) = p \<or> is_infix p s)"

definition py_in :: "string \<Rightarrow> json \<Rightarrow> exn + bool" where
  "py_in k v =
     (case v of
        JObj d \<Rightarrow> Inr (map_of d k \<noteq> None)
      | JArr xs \<Rightarrow> Inr (JStr k \<in> set xs)
      | JStr s \<Rightarrow> Inr (is_infix k s)
      | _ \<Rightarrow> Inl TypeError)"

definition py_getitem :: "json \<Rightarrow> string \<Rightarrow> exn + json" where
  "py_getitem v k =
     (case v of
        JObj d \<Rightarrow> (case map_of d k of None \<Rightarrow> Inl KeyError | Some x \<Rightarrow> Inr x)
      | _ \<Rightarrow> Inl TypeError)"

definition py_len :: "json \<Rightarrow> exn + nat" where
  "py_len v =
     (case v of
        JObj d \<Rightarrow> Inr (length d)
      | JArr xs \<Rightarrow> Inr (length xs)
      | JStr s \<Rightarrow> Inr (length s)
      | _ \<Rightarrow> Inl TypeError)"

definition has_tools :: "json \<Rightarrow> exn + bool" where
  \<comment> \<open>\<^verbatim>\<open>"result" in data and "tools" in data["result"]\<close>\<close>
  "has_tools data =
     (case py_in ''result'' data of
        Inl e \<Rightarrow> Inl e
      | Inr False \<Rightarrow> Inr False
      | Inr True \<Rightarrow>
          (case py_getitem data ''result'' of
             Inl e \<Rightarrow> Inl e
           | Inr res \<Rightarrow> py_in ''tools'' res))"

definition result_tools :: "json \<Rightarrow> exn + json" where
  \<comment> \<open>\<^verbatim>\<open>data["result"]["tools"]\<close>\<close>
  "result_tools data =
     (case py_getitem data ''result'' of
        Inl e \<Rightarrow> Inl e
      | Inr res \<Rightarrow> py_getitem res ''tools'')"

text \<open>
  The exchange that \<^verbatim>\<open>_initialize_server\<close>, \<^verbatim>\<open>_get_tools\<close> and \<^verbatim>\<open>call_tool\<close> each spell out:
  \<^verbatim>\<open>
  process.stdin.write(json.dumps(request) + "\n")
  process.stdin.flush()
  response = process.stdout.readline()
  if response:
      data = json.loads(response.strip())
  \<close>
  The result of a call that returns is the exception raised, or \<open>None\<close> when the stream
  had ended, or the decoded value.
\<close>

definition exchange ::
  "nat \<Rightarrow> request \<Rightarrow> world \<Rightarrow> (exn + json option) option \<times> world" where
  "exchange h r w =
     (case write_line h r w of
        Inl e \<Rightarrow> (Some (Inl e), w)
      | Inr w1 \<Rightarrow>
          (case readline h w1 of
             (None, w2) \<Rightarrow> (None, w2)
           | (Some (Inl e), w2) \<Rightarrow> (Some (Inl e), w2)
           | (Some (Inr None), w2) \<Rightarrow> (Some (Inr None), w2)
           | (Some (Inr (Some l)), w2) \<Rightarrow>
               (case loads l of
                  Inl e \<Rightarrow> (Some (Inl e), w2)
                | Inr data \<Rightarrow> (Some (Inr (Some data)), w2))))"

text \<open>
  \<^verbatim>\<open>_get_tools\<close>: every exception of the body is caught and logged. The catalog is
  stored before the log line is formatted, so a catalog without a length stays stored.
\<close>

definition get_tools ::
  "string \<Rightarrow> MCPManager \<Rightarrow> world \<Rightarrow> unit option \<times> MCPManager \<times> world" where
  "get_tools server_name m w =
     (case map_of (active_connections m) server_name of
        None \<Rightarrow> (Some (), m, log (Error_get_tools_failed server_name KeyError) w)
      | Some h \<Rightarrow>
          (case exchange h ToolsList w of
             (None, w1) \<Rightarrow> (None, m, w1)
           | (Some (Inl e), w1) \<Rightarrow> (Some (), m, log (Error_get_tools_failed server_name e) w1)
           | (Some (Inr None), w1) \<Rightarrow> (Some (), m, w1)
           | (Some (Inr (Some data)), w1) \<Rightarrow>
               (case has_tools data of
                  Inl e \<Rightarrow> (Some (), m, log (Error_get_tools_failed server_name e) w1)
                | Inr False \<Rightarrow> (Some (), m, w1)
                | Inr True \<Rightarrow>
                    (case result_tools data of
                       Inl e \<Rightarrow> (Some (), m, log (Error_get_tools_failed server_name e) w1)
                     | Inr tools \<Rightarrow>
                         (let m1 = m\<lparr>available_tools :=
                                AList.update server_name tools (available_tools m)\<rparr>
                          in case py_len tools of
                               Inl e \<Rightarrow>
                                 (Some (), m1, log (Error_get_tools_failed server_name e) w1)
                             | Inr n \<Rightarrow>
                                 (Some (), m1, log (Info_got_tools n server_name) w1))))))"

text \<open>
  \<^verbatim>\<open>_initialize_server\<close>: every exception of the body is caught and logged, and nothing
  is returned; when the stream has ended, nothing is logged and the catalog is not asked
  for.
\<close>

definition initialize_server ::
  "string \<Rightarrow> MCPManager \<Rightarrow> world \<Rightarrow> unit option \<times> MCPManager \<times> world" where
  "initialize_server server_name m w =
     (case map_of (active_connections m) server_name of
        None \<Rightarrow> (Some (), m, log (Error_initialize_failed server_name KeyError) w)
      | Some h \<Rightarrow>
          (case exchange h Initialize w of
             (None, w1) \<Rightarrow> (None, m, w1)
           | (Some (Inl e), w1) \<Rightarrow> (Some (), m, log (Error_initialize_failed server_name e) w1)
           | (Some (Inr None), w1) \<Rightarrow> (Some (), m, w1)
           | (Some (Inr (Some data)), w1) \<Rightarrow>
               get_tools server_name m (log (Info_initialized server_name data) w1)))"

text \<open>
  \<^verbatim>\<open>start_server\<close>. \<open>popen\<close> is \<^verbatim>\<open>subprocess.Popen\<close>: for a command line and an
  environment it raises, or yields the child in its first state. \<open>environ\<close> is
  \<^verbatim>\<open>os.environ\<close>. The new handle is stored under the name whatever was stored there.
\<close>

definition build_env ::
  "(string \<times> string) list \<Rightarrow> MCPServer \<Rightarrow> exn + (string \<times> string) list" where
  \<comment> \<open>\<^verbatim>\<open>env = os.environ.copy(); env.update(server.env)\<close>\<close>
  "build_env environ server =
     (case env server of None \<Rightarrow> Inl TypeError | Some e \<Rightarrow> Inr (dict_update environ e))"

definition build_cmd :: "MCPServer \<Rightarrow> exn + string list" where
  \<comment> \<open>\<^verbatim>\<open>cmd = server.command + server.args\<close>\<close>
  "build_cmd server =
     (case args server of None \<Rightarrow> Inl TypeError | Some a \<Rightarrow> Inr (command server @ a))"

definition spawn ::
  "(string list \<Rightarrow> (string \<times> string) list \<Rightarrow> exn + process) \<Rightarrow> (string \<times> string) list
     \<Rightarrow> MCPServer \<Rightarrow> exn + process" where
  "spawn popen environ server =
     (case build_env environ server of
        Inl e \<Rightarrow> Inl e
      | Inr env1 \<Rightarrow>
          (case build_cmd server of
             Inl e \<Rightarrow> Inl e
           | Inr cmd \<Rightarrow> popen cmd env1))"

definition start_server ::
  "(string list \<Rightarrow> (string \<times> string) list \<Rightarrow> exn + process) \<Rightarrow> (string \<times> string) list
     \<Rightarrow> string \<Rightarrow> MCPManager \<Rightarrow> world \<Rightarrow> bool option \<times> MCPManager \<times> world" where
  "start_server popen environ server_name m w =
     (case map_of (servers m) server_name of
        None \<Rightarrow> (Some False, m, log (Error_not_found server_name) w)
      | Some server \<Rightarrow>
          (case spawn popen environ server of
             Inl e \<Rightarrow> (Some False, m, log (Error_start_failed server_name e) w)
           | Inr p \<Rightarrow>
               (let h = length (procs w);
                    w1 = w\<lparr>procs := procs w @ [p]\<rparr>;
                    m1 = m\<lparr>active_connections :=
                           AList.update server_name h (active_connections m)\<rparr>;
                    w2 = log (Info_started server_name) w1;
                    (returned, m2, w3) = initialize_server server_name m1 w2
                in (case returned of None \<Rightarrow> None | Some u \<Rightarrow> Some True, m2, w3))))"

text \<open>
  \<^verbatim>\<open>call_tool\<close>: raises when the name has no entry; an exception of the exchange is logged
  and raised again; when the stream has ended the function ends without a \<^verbatim>\<open>return\<close>,
  which is \<^verbatim>\<open>None\<close>.
\<close>

definition call_tool ::
  "string \<Rightarrow> string \<Rightarrow> json \<Rightarrow> MCPManager \<Rightarrow> world
     \<Rightarrow> (exn + json option) option \<times> world" where
  "call_tool server_name tool_name arguments m w =
     (case map_of (active_connections m) server_name of
        None \<Rightarrow> (Some (Inl (PyException (''Server '' @ server_name @ '' not connected''))), w)
      | Some h \<Rightarrow>
          (case exchange h (ToolsCall tool_name arguments) w of
             (None, w1) \<Rightarrow> (None, w1)
           | (Some (Inl e), w1) \<Rightarrow>
               (Some (Inl e), log (Error_call_tool_failed tool_name server_name e) w1)
           | (Some (Inr None), w1) \<Rightarrow> (Some (Inr None), w1)
           | (Some (Inr (Some data)), w1) \<Rightarrow> (Some (Inr (Some data)), w1)))"

definition terminate :: "nat \<Rightarrow> world \<Rightarrow> world" where
  \<comment> \<open>\<^verbatim>\<open>process.terminate()\<close>: a child that has not exited is sent \<^verbatim>\<open>SIGTERM\<close>. Nothing
      waits for it, so it is still running when the call returns.\<close>
  "terminate h w =
     (let p = procs w ! h
      in if alive p then w\<lparr>procs := (procs w)[h := p\<lparr>signalled := True\<rparr>]\<rparr> else w)"

definition stop_server :: "string \<Rightarrow> MCPManager \<Rightarrow> world \<Rightarrow> MCPManager \<times> world" where
  "stop_server server_name m w =
     (case map_of (active_connections m) server_name of
        None \<Rightarrow> (m, w)
      | Some h \<Rightarrow>
          (m\<lparr>active_connections := AList.delete server_name (active_connections m)\<rparr>,
           log (Info_stopped server_name) (terminate h w)))"

text \<open>
  \<^verbatim>\<open>get_available_tools_list\<close> walks the stored catalogs, whether or not the owning
  server still has a connection. Iterating a catalog and copying a tool can raise; nothing
  is caught here.
\<close>

definition py_iter :: "json \<Rightarrow> exn + json list" where
  \<comment> \<open>\<^verbatim>\<open>for tool in tools\<close>: the elements of a list, the keys of a dict, the characters
      of a string.\<close>
  "py_iter v =
     (case v of
        JArr xs \<Rightarrow> Inr xs
      | JObj d \<Rightarrow> Inr (map (\<lambda>(k, _). JStr k) d)
      | JStr s \<Rightarrow> Inr (map (\<lambda>c. JStr [c]) s)
      | _ \<Rightarrow> Inl TypeError)"

definition tag_tool :: "string \<Rightarrow> json \<Rightarrow> exn + json" where
  \<comment> \<open>\<^verbatim>\<open>tool_info = tool.copy(); tool_info["server"] = server_name\<close>\<close>
  "tag_tool server_name tool =
     (case tool of
        JObj d \<Rightarrow> Inr (JObj (AList.update ''server'' (JStr server_name) d))
      | JArr xs \<Rightarrow> Inl TypeError
      | _ \<Rightarrow> Inl AttributeError)"

fun tag_tools :: "string \<Rightarrow> json list \<Rightarrow> json list \<Rightarrow> exn + json list" where
  "tag_tools server_name [] all_tools = Inr all_tools"
| "tag_tools server_name (tool # ts) all_tools =
     (case tag_tool server_name tool of
        Inl e \<Rightarrow> Inl e
      | Inr tool_info \<Rightarrow> tag_tools server_name ts (all_tools @ [tool_info]))"

fun collect_tools :: "(string \<times> json) list \<Rightarrow> json list \<Rightarrow> exn + json list" where
  "collect_tools [] all_tools = Inr all_tools"
| "collect_tools ((server_name, tools) # rest) all_tools =
     (case py_iter tools of
        Inl e \<Rightarrow> Inl e
      | Inr ts \<Rightarrow>
          (case tag_tools server_name ts all_tools of
             Inl e \<Rightarrow> Inl e
           | Inr all1 \<Rightarrow> collect_tools rest all1))"

definition get_available_tools_list :: "MCPManager \<Rightarrow> exn + json list" where
  "get_available_tools_list m = collect_tools (available_tools m) []"

section \<open>The chat session\<close>

text \<open>
  An exception met inside \<^verbatim>\<open>chat\<close> or \<^verbatim>\<open>stream_chat\<close>: its class and \<^verbatim>\<open>str(exc)\<close>, which
  is all the handlers use.
\<close>

datatype exc = Exc string string

fun str_exc :: "exc \<Rightarrow> string" where
  "str_exc (Exc cls msg) = msg"

text \<open>
  The model server behind \<^verbatim>\<open>self.client\<close>. \<open>models_list\<close> is
  \<^verbatim>\<open>[m.id for m in self.client.models.list().data]\<close>; \<open>create\<close> is
  \<^verbatim>\<open>chat.completions.create(model, messages, stream=False)\<close> read at
  \<^verbatim>\<open>.choices[0].message.content\<close> (which may be \<^verbatim>\<open>None\<close>); \<open>create_stream\<close> is the same
  call with \<^verbatim>\<open>stream=True\<close>: the \<^verbatim>\<open>choices[0].delta.content\<close> of the chunks in order, and the
  exception the stream raises after them, if any.
\<close>

record client =
  models_list :: "exc + string list"
  create :: "string \<Rightarrow> json \<Rightarrow> exc + string option"
  create_stream :: "string \<Rightarrow> json \<Rightarrow> exc + string option list \<times> exc option"

text \<open>
  \<^verbatim>\<open>conversation_history\<close> is whatever Python value was last stored there: a list of
  turns after \<^verbatim>\<open>__init__\<close>, \<^verbatim>\<open>chat\<close> and \<^verbatim>\<open>clear_conversation\<close>, any decoded document after
  \<^verbatim>\<open>load_conversation\<close>.
\<close>

record LMStudioMCPChatbot =
  conversation_history :: json
  mcp_manager :: MCPManager
  mcp_enabled :: bool

definition init_chatbot :: LMStudioMCPChatbot where
  \<comment> \<open>before \<^verbatim>\<open>add_default_servers\<close>\<close>
  "init_chatbot =
     \<lparr>conversation_history = JArr [], mcp_manager = init_manager, mcp_enabled = False\<rparr>"

definition turn :: "string \<Rightarrow> json \<Rightarrow> json" where
  \<comment> \<open>\<^verbatim>\<open>{"role": role, "content": content}\<close>\<close>
  "turn role content = JObj [(''role'', JStr role), (''content'', content)]"

definition type_name :: "json \<Rightarrow> string" where
  "type_name v =
     (case v of
        JNull \<Rightarrow> ''NoneType''
      | JBool _ \<Rightarrow> ''bool''
      | JInt _ \<Rightarrow> ''int''
      | JFloat _ \<Rightarrow> ''float''
      | JStr _ \<Rightarrow> ''str''
      | JArr _ \<Rightarrow> ''list''
      | JObj _ \<Rightarrow> ''dict'')"

definition py_append :: "json \<Rightarrow> json \<Rightarrow> exc + json" where
  \<comment> \<open>\<^verbatim>\<open>value.append(x)\<close>: only a list has the method.\<close>
  "py_append v x =
     (case v of
        JArr xs \<Rightarrow> Inr (JArr (xs @ [x]))
      | _ \<Rightarrow>
          Inl (Exc ''AttributeError''
                 ([CHR 0x27] @ type_name v @ [CHR 0x27] @ '' object has no attribute ''
                  @ [CHR 0x27] @ ''append'' @ [CHR 0x27])))"

definition startswith :: "string \<Rightarrow> string \<Rightarrow> bool" where
  "startswith s p = (take (length p) s = p)"

definition get_available_models :: "client \<Rightarrow> string list" where
  "get_available_models c =
     (case models_list c of
        Inl e \<Rightarrow> [''Error: '' @ str_exc e]
      | Inr ids \<Rightarrow> ids)"

definition no_models :: exc where
  "no_models = Exc ''RuntimeError'' ''No models available in LM Studio''"

definition falsy :: "string option \<Rightarrow> bool" where
  \<comment> \<open>\<^verbatim>\<open>not model_name\<close>: \<^verbatim>\<open>None\<close> or the empty string\<close>
  "falsy model_name = (case model_name of None \<Rightarrow> True | Some n \<Rightarrow> n = [])"

text \<open>
  The lines \<^verbatim>\<open>chat\<close> and \<^verbatim>\<open>stream_chat\<close> share:
  \<^verbatim>\<open>
  if not model_name:
      available = self.get_available_models()
      if not available or available[0].startswith("Error"):
          raise RuntimeError("No models available in LM Studio")
      model_name = available[0]
  \<close>
\<close>

definition no_model_marker :: "string list \<Rightarrow> bool" where
  \<comment> \<open>\<^verbatim>\<open>not available or available[0].startswith("Error")\<close>\<close>
  "no_model_marker available =
     (case available of [] \<Rightarrow> True | a # _ \<Rightarrow> startswith a ''Error'')"

definition pick_model :: "client \<Rightarrow> exc + string" where
  "pick_model c =
     (let available = get_available_models c
      in case available of
           [] \<Rightarrow> Inl no_models
         | a # _ \<Rightarrow> if no_model_marker available then Inl no_models else Inr a)"

definition resolve_model :: "client \<Rightarrow> string option \<Rightarrow> exc + string" where
  "resolve_model c model_name =
     (case model_name of
        None \<Rightarrow> pick_model c
      | Some n \<Rightarrow> if n = [] then pick_model c else Inr n)"

definition content_of :: "string option \<Rightarrow> json" where
  "content_of msg = (case msg of None \<Rightarrow> JNull | Some s \<Rightarrow> JStr s)"

text \<open>
  \<^verbatim>\<open>chat\<close>. The user turn is appended before the \<^verbatim>\<open>try\<close>, so an exception there leaves
  the function; every exception after it is returned as the text \<^verbatim>\<open>Error: {exc}\<close>.
\<close>

definition chat ::
  "client \<Rightarrow> string \<Rightarrow> string option \<Rightarrow> LMStudioMCPChatbot
     \<Rightarrow> (exc + string option) \<times> LMStudioMCPChatbot" where
  "chat c message model_name b =
     (case py_append (conversation_history b) (turn ''user'' (JStr message)) of
        Inl e \<Rightarrow> (Inl e, b)
      | Inr h1 \<Rightarrow>
          (let b1 = b\<lparr>conversation_history := h1\<rparr>
           in case resolve_model c model_name of
                Inl e \<Rightarrow> (Inr (Some (''Error: '' @ str_exc e)), b1)
              | Inr mn \<Rightarrow>
                  (case create c mn h1 of
                     Inl e \<Rightarrow> (Inr (Some (''Error: '' @ str_exc e)), b1)
                   | Inr assistant_msg \<Rightarrow>
                       (case py_append h1 (turn ''assistant'' (content_of assistant_msg)) of
                          Inl e \<Rightarrow> (Inr (Some (''Error: '' @ str_exc e)), b1)
                        | Inr h2 \<Rightarrow> (Inr assistant_msg, b1\<lparr>conversation_history := h2\<rparr>)))))"

text \<open>
  \<^verbatim>\<open>stream_chat\<close> is a generator: calling it runs nothing, and each \<^verbatim>\<open>next()\<close> runs the
  body up to the next \<^verbatim>\<open>yield\<close>. The generator object is its point of suspension with the
  locals alive there.
\<close>

datatype gen =
    Created string "string option"
      \<comment> \<open>not started: \<open>message\<close>, \<open>model_name\<close>\<close>
  | In_loop string "string option list" "exc option"
      \<comment> \<open>at the \<^verbatim>\<open>yield delta\<close>: \<open>full\<close>, the chunks to come, what the stream raises after them\<close>
  | In_handler
      \<comment> \<open>at the \<^verbatim>\<open>yield\<close> of the \<^verbatim>\<open>except\<close> clause\<close>
  | Finished

definition stream_chat :: "string \<Rightarrow> string option \<Rightarrow> gen" where
  "stream_chat message model_name = Created message model_name"

text \<open>
  The \<^verbatim>\<open>for chunk in response\<close> loop from the point where \<open>chunks\<close> are still to come, up to
  the next \<^verbatim>\<open>yield\<close> or the end of the body. The result is the fragment yielded, or \<open>None\<close>
  when the body ends (\<^verbatim>\<open>StopIteration\<close>).
\<close>

fun loop ::
  "string \<Rightarrow> string option list \<Rightarrow> exc option \<Rightarrow> LMStudioMCPChatbot
     \<Rightarrow> string option \<times> gen \<times> LMStudioMCPChatbot" where
  "loop full [] None b =
     (case py_append (conversation_history b) (turn ''assistant'' (JStr full)) of
        Inl e \<Rightarrow> (Some (''Error: '' @ str_exc e), In_handler, b)
      | Inr h \<Rightarrow> (None, Finished, b\<lparr>conversation_history := h\<rparr>))"
| "loop full [] (Some e) b = (Some (''Error: '' @ str_exc e), In_handler, b)"
| "loop full (delta # chunks) err b =
     (case delta of
        None \<Rightarrow> loop full chunks err b
      | Some d \<Rightarrow>
          if d = [] then loop full chunks err b
          else (Some d, In_loop (full @ d) chunks err, b))"

definition gen_next ::
  "client \<Rightarrow> gen \<Rightarrow> LMStudioMCPChatbot \<Rightarrow> (exc + string option) \<times> gen \<times> LMStudioMCPChatbot" where
  "gen_next c g b =
     (case g of
        Created message model_name \<Rightarrow>
          (case py_append (conversation_history b) (turn ''user'' (JStr message)) of
             Inl e \<Rightarrow> (Inl e, Finished, b)
           | Inr h1 \<Rightarrow>
               (let b1 = b\<lparr>conversation_history := h1\<rparr>
                in case resolve_model c model_name of
                     Inl e \<Rightarrow> (Inr (Some (''Error: '' @ str_exc e)), In_handler, b1)
                   | Inr mn \<Rightarrow>
                       (case create_stream c mn h1 of
                          Inl e \<Rightarrow> (Inr (Some (''Error: '' @ str_exc e)), In_handler, b1)
                        | Inr (chunks, err) \<Rightarrow>
                            (case loop [] chunks err b1 of (r, g1, b2) \<Rightarrow> (Inr r, g1, b2)))))
      | In_loop full chunks err \<Rightarrow>
          (case loop full chunks err b of (r, g1, b1) \<Rightarrow> (Inr r, g1, b1))
      | In_handler \<Rightarrow> (Inr None, Finished, b)
      | Finished \<Rightarrow> (Inr None, Finished, b))"

text \<open>
  Abandoning the generator closes it: \<^verbatim>\<open>GeneratorExit\<close> is raised at the \<^verbatim>\<open>yield\<close>, it is not
  an \<^verbatim>\<open>Exception\<close>, so no handler runs and nothing more of the body is executed.
\<close>

definition gen_close :: "gen \<Rightarrow> LMStudioMCPChatbot \<Rightarrow> gen \<times> LMStudioMCPChatbot" where
  "gen_close g b = (Finished, b)"

text \<open>
  Consumers. \<open>advance n\<close> calls \<^verbatim>\<open>next()\<close> up to \<open>n\<close> times and stops when a call yields
  nothing; \<open>consume\<close> is \<^verbatim>\<open>for chunk in stream_chat(...)\<close>, which calls \<^verbatim>\<open>next()\<close> until the
  generator is exhausted. A started generator has finitely many chunks left, which bounds
  the calls.
\<close>

fun advance ::
  "nat \<Rightarrow> client \<Rightarrow> gen \<Rightarrow> LMStudioMCPChatbot \<Rightarrow> string list \<times> gen \<times> LMStudioMCPChatbot" where
  "advance 0 c g b = ([], g, b)"
| "advance (Suc n) c g b =
     (case gen_next c g b of
        (Inr (Some chunk), g', b') \<Rightarrow>
          (case advance n c g' b' of (chunks, g'', b'') \<Rightarrow> (chunk # chunks, g'', b''))
      | (r, g', b') \<Rightarrow> ([], g', b'))"

fun rank :: "gen \<Rightarrow> nat" where
  "rank (Created message model_name) = 0"
| "rank (In_loop full chunks err) = length chunks + 2"
| "rank In_handler = 1"
| "rank Finished = 0"

fun started :: "gen \<Rightarrow> bool" where
  "started (Created message model_name) = False"
| "started g = True"

definition steps_left :: "client \<Rightarrow> gen \<Rightarrow> LMStudioMCPChatbot \<Rightarrow> nat" where
  "steps_left c g b =
     (case g of
        Created message model_name \<Rightarrow> Suc (rank (fst (snd (gen_next c g b))))
      | _ \<Rightarrow> rank g)"

lemma loop_rank: "loop full chunks err b = (Some d, g, b') \<Longrightarrow> rank g < length chunks + 2"
  by (induction full chunks err b rule: loop.induct)
    (auto split: sum.splits option.splits if_splits)

lemma loop_started: "started (fst (snd (loop full chunks err b)))"
  by (induction full chunks err b rule: loop.induct) (auto split: sum.splits option.splits)

lemma gen_next_started: "started (fst (snd (gen_next c g b)))"
proof (cases g)
  case (Created message model_name)
  then show ?thesis
    using loop_started
    by (auto simp add: gen_next_def Let_def split: sum.splits prod.splits)
      (metis fst_conv snd_conv)
next
  case (In_loop full chunks err)
  then show ?thesis
    using loop_started [of full chunks err b]
    by (auto simp add: gen_next_def split: prod.splits)
qed (simp_all add: gen_next_def)

lemma steps_left_started: "started g \<Longrightarrow> steps_left c g b = rank g"
  by (cases g) (simp_all add: steps_left_def)

lemma steps_left_decreases:
  assumes "gen_next c g b = (Inr (Some d), g', b')"
  shows "steps_left c g' b' < steps_left c g b"
proof -
  have "started g'"
    using gen_next_started [of c g b] assms by simp
  then have g': "steps_left c g' b' = rank g'"
    by (rule steps_left_started)
  show ?thesis
  proof (cases g)
    case (Created message model_name)
    then show ?thesis using assms g' by (simp add: steps_left_def)
  next
    case (In_loop full chunks err)
    then show ?thesis using assms g' loop_rank [of full chunks err b d g' b']
      by (auto simp add: steps_left_def gen_next_def split: prod.splits)
  next
    case In_handler
    then show ?thesis using assms by (simp add: gen_next_def)
  next
    case Finished
    then show ?thesis using assms by (simp add: gen_next_def)
  qed
qed

function consume ::
  "client \<Rightarrow> gen \<Rightarrow> LMStudioMCPChatbot \<Rightarrow> (exc + string list) \<times> LMStudioMCPChatbot" where
  "consume c g b =
     (case gen_next c g b of
        (Inl e, g', b') \<Rightarrow> (Inl e, b')
      | (Inr None, g', b') \<Rightarrow> (Inr [], b')
      | (Inr (Some chunk), g', b') \<Rightarrow>
          (case consume c g' b' of
             (Inl e, b'') \<Rightarrow> (Inl e, b'')
           | (Inr chunks, b'') \<Rightarrow> (Inr (chunk # chunks), b'')))"
  by pat_completeness auto
termination
  by (relation "measure (\<lambda>(c, g, b). steps_left c g b)")
    (auto intro: steps_left_decreases [OF sym])

declare consume.simps [simp del]

text \<open>The text a stream of chunks delivers, and the fragments the generator yields for it.\<close>

definition delivered :: "string option list \<Rightarrow> string" where
  "delivered chunks = concat (map (\<lambda>delta. case delta of None \<Rightarrow> [] | Some d \<Rightarrow> d) chunks)"

definition fragments :: "string option list \<Rightarrow> string list" where
  "fragments chunks =
     concat (map (\<lambda>delta. case delta of None \<Rightarrow> [] | Some d \<Rightarrow> if d = [] then [] else [d])
               chunks)"

text \<open>
  A model server that lists one model, answers every request for it with the same text,
  and refuses any other model.
\<close>

definition hello_client :: client where
  "hello_client =
     \<lparr>models_list = Inr [''m1''],
      create =
        (\<lambda>mn msgs. if mn = ''m1'' then Inr (Some ''Hello world'')
                    else Inl (Exc ''NotFoundError'' ''model not found'')),
      create_stream =
        (\<lambda>mn msgs. if mn = ''m1''
                    then Inr ([Some ''Hel'', None, Some [], Some ''lo '', Some ''world''], None)
                    else Inl (Exc ''NotFoundError'' ''model not found''))\<rparr>"

text \<open>A model server without models, and one whose listing raises.\<close>

definition empty_client :: client where
  "empty_client = hello_client\<lparr>models_list := Inr []\<rparr>"

definition down_client :: client where
  "down_client = hello_client\<lparr>models_list := Inl (Exc ''APIConnectionError'' ''Connection error.'')\<rparr>"

section \<open>Saving and loading the history\<close>

text \<open>
  \<^verbatim>\<open>save_conversation\<close> and \<^verbatim>\<open>load_conversation\<close> hand the history to \<^verbatim>\<open>json.dump\<close> (with
  \<^verbatim>\<open>indent=2, ensure_ascii=False\<close>) and read it back with \<^verbatim>\<open>json.load\<close>, through a file
  opened with \<^verbatim>\<open>encoding="utf-8"\<close>. The two library functions are modelled on the text they
  write and accept for strings, lists, dicts with string keys, \<^verbatim>\<open>None\<close> and the booleans.
  Numbers, and \<^verbatim>\<open>\u\<close> escapes of surrogate code units, are outside the model: there the
  functions answer \<open>Not_modelled\<close>, which is no statement about the code.

  A \<open>string\<close> stands for a Python \<^verbatim>\<open>str\<close> by the bytes of its UTF-8 encoding, and a file
  holds bytes. A \<^verbatim>\<open>str\<close> can hold a lone surrogate, which UTF-8 refuses to encode; here it
  stands as the three bytes the same scheme gives it (\<^verbatim>\<open>ED A0 80\<close> to \<^verbatim>\<open>ED BF BF\<close>, what
  \<^verbatim>\<open>surrogatepass\<close> writes), so that a \<^verbatim>\<open>str\<close> can be encoded exactly when its bytes are
  well-formed UTF-8.
\<close>

datatype failure = Raises exn | Not_modelled | Out_of_fuel

text \<open>
  Well-formed UTF-8, as the codec checks it on reading and on writing: by its first byte
  a sequence has up to three continuation bytes, of which the first is confined further
  so that over-long forms, surrogates and code points above \<^verbatim>\<open>10FFFF\<close> are refused.
\<close>

definition lead :: "nat \<Rightarrow> (nat \<times> nat \<times> nat) option" where
  \<comment> \<open>for a first byte: the number of continuation bytes and the range of the first\<close>
  "lead n =
     (if 0xC2 \<le> n \<and> n \<le> 0xDF then Some (1, 0x80, 0xBF)
      else if n = 0xE0 then Some (2, 0xA0, 0xBF)
      else if n = 0xED then Some (2, 0x80, 0x9F)
      else if 0xE1 \<le> n \<and> n \<le> 0xEF then Some (2, 0x80, 0xBF)
      else if n = 0xF0 then Some (3, 0x90, 0xBF)
      else if 0xF1 \<le> n \<and> n \<le> 0xF3 then Some (3, 0x80, 0xBF)
      else if n = 0xF4 then Some (3, 0x80, 0x8F)
      else None)"

definition continues :: "nat \<Rightarrow> nat \<Rightarrow> string \<Rightarrow> bool" where
  \<comment> \<open>continuation bytes, the first of them within the given range\<close>
  "continues lo hi bs =
     (case bs of
        [] \<Rightarrow> False
      | b # rest \<Rightarrow>
          lo \<le> (of_char b :: nat) \<and> (of_char b :: nat) \<le> hi
          \<and> list_all (\<lambda>c. 0x80 \<le> (of_char c :: nat) \<and> (of_char c :: nat) \<le> 0xBF) rest)"

function utf8_valid :: "string \<Rightarrow> bool" where
  "utf8_valid [] = True"
| "utf8_valid (a # s) =
     (if (of_char a :: nat) < 0x80 then utf8_valid s
      else case lead (of_char a) of
             None \<Rightarrow> False
           | Some (k, lo, hi) \<Rightarrow>
               k \<le> length s \<and> continues lo hi (take k s) \<and> utf8_valid (drop k s))"
  by pat_completeness auto
termination
  by (relation "measure length") auto

definition hexdigit :: "nat \<Rightarrow> char" where
  "hexdigit d = ''0123456789abcdef'' ! d"

definition escape_char :: "char \<Rightarrow> string" where
  \<comment> \<open>\<^verbatim>\<open>ESCAPE_DCT\<close>: the short escapes, and \<^verbatim>\<open>\u00xx\<close> for the other characters below 0x20\<close>
  "escape_char c =
     (if c = CHR 0x22 then [CHR 0x5C, CHR 0x22]
      else if c = CHR 0x5C then [CHR 0x5C, CHR 0x5C]
      else if c = CHR 0x0A then [CHR 0x5C, CHR ''n'']
      else if c = CHR 0x0D then [CHR 0x5C, CHR ''r'']
      else if c = CHR 0x09 then [CHR 0x5C, CHR ''t'']
      else if c = CHR 0x08 then [CHR 0x5C, CHR ''b'']
      else if c = CHR 0x0C then [CHR 0x5C, CHR ''f'']
      else if (of_char c :: nat) < 0x20 then
        [CHR 0x5C, CHR ''u'', CHR ''0'', CHR ''0'',
         hexdigit (of_char c div 16), hexdigit (of_char c mod 16)]
      else [c])"

definition encode_basestring :: "string \<Rightarrow> string" where
  "encode_basestring s = CHR 0x22 # concat (map escape_char s) @ [CHR 0x22]"

definition newline_indent :: "nat \<Rightarrow> string" where
  \<comment> \<open>\<^verbatim>\<open>'\n' + indent * level\<close> with an indent of two spaces\<close>
  "newline_indent level = CHR 0x0A # replicate (2 * level) CHR '' ''"

fun join :: "string \<Rightarrow> string list \<Rightarrow> string" where
  "join sep [] = []"
| "join sep [x] = x"
| "join sep (x # y # ys) = x @ sep @ join sep (y # ys)"

definition bracket :: "char \<Rightarrow> char \<Rightarrow> nat \<Rightarrow> string list \<Rightarrow> string" where
  \<comment> \<open>the items of a non-empty list or dict, one per line, between the brackets\<close>
  "bracket l r level items =
     l # newline_indent (Suc level) @ join (CHR '','' # newline_indent (Suc level)) items
       @ newline_indent level @ [r]"

text \<open>
  The encoder is a generator of chunks of text, which \<^verbatim>\<open>json.dump\<close> writes one by one. So
  its result is the chunks it yields and then, if it does not come to its end, what stops
  it. \<open>room\<close> is the number of nested lists and dicts for which the interpreter's stack has
  room: the generator of a list or dict that finds none raises \<^verbatim>\<open>RecursionError\<close>.
\<close>

type_synonym chunks = "string list \<times> failure option"

definition then_chunks :: "chunks \<Rightarrow> chunks \<Rightarrow> chunks" where
  "then_chunks a b =
     (case a of (cs, Some e) \<Rightarrow> (cs, Some e) | (cs, None) \<Rightarrow> (cs @ fst b, snd b))"

definition yield :: "string list \<Rightarrow> chunks" where
  "yield cs = (cs, None)"

fun atom :: "json \<Rightarrow> (failure + string) option" where
  \<comment> \<open>the text of a value that is written in one piece; \<open>None\<close> for a list or a dict\<close>
  "atom JNull = Some (Inr ''null'')"
| "atom (JBool b) = Some (Inr (if b then ''true'' else ''false''))"
| "atom (JInt i) = Some (Inl Not_modelled)"
| "atom (JFloat f) = Some (Inl Not_modelled)"
| "atom (JStr s) = Some (Inr (encode_basestring s))"
| "atom (JArr xs) = None"
| "atom (JObj d) = None"

fun iterencode :: "nat \<Rightarrow> nat \<Rightarrow> json \<Rightarrow> chunks"
  and iterencode_list :: "nat \<Rightarrow> nat \<Rightarrow> string \<Rightarrow> json list \<Rightarrow> chunks"
  and iterencode_dict :: "nat \<Rightarrow> nat \<Rightarrow> bool \<Rightarrow> (string \<times> json) list \<Rightarrow> chunks"
where
  "iterencode room level JNull = yield [''null'']"
| "iterencode room level (JBool b) = yield [if b then ''true'' else ''false'']"
| "iterencode room level (JInt i) = ([], Some Not_modelled)"
| "iterencode room level (JFloat f) = ([], Some Not_modelled)"
| "iterencode room level (JStr s) = yield [encode_basestring s]"
| "iterencode room level (JArr xs) =
     (case room of
        0 \<Rightarrow> ([], Some (Raises RecursionError))
      | Suc r \<Rightarrow>
          if xs = [] then yield [''[]'']
          else then_chunks
                 (iterencode_list r (Suc level) (CHR ''['' # newline_indent (Suc level)) xs)
                 (yield [newline_indent level, '']'']))"
| "iterencode room level (JObj d) =
     (case room of
        0 \<Rightarrow> ([], Some (Raises RecursionError))
      | Suc r \<Rightarrow>
          if d = [] then yield [''{}'']
          else then_chunks (yield [''{'', newline_indent (Suc level)])
                 (then_chunks (iterencode_dict r (Suc level) True d)
                    (yield [newline_indent level, ''}''])))"
| "iterencode_list room level buf [] = yield []"
| "iterencode_list room level buf (x # xs) =
     then_chunks
       (case atom x of
          Some (Inr t) \<Rightarrow> yield [buf @ t]
        | Some (Inl e) \<Rightarrow> ([], Some e)
        | None \<Rightarrow> then_chunks (yield [buf]) (iterencode room level x))
       (iterencode_list room level (CHR '','' # newline_indent level) xs)"
| "iterencode_dict room level first [] = yield []"
| "iterencode_dict room level first (kv # d) =
     then_chunks
       (yield ((if first then [] else [CHR '','' # newline_indent level])
               @ [encode_basestring (fst kv), '': '']))
       (then_chunks (iterencode room level (snd kv))
          (iterencode_dict room level False d))"

definition hexval :: "char \<Rightarrow> nat option" where
  "hexval c =
     (let n = (of_char c :: nat)
      in if 0x30 \<le> n \<and> n \<le> 0x39 then Some (n - 0x30)
         else if 0x61 \<le> n \<and> n \<le> 0x66 then Some (n - 0x61 + 10)
         else if 0x41 \<le> n \<and> n \<le> 0x46 then Some (n - 0x41 + 10)
         else None)"

definition hex4 :: "char \<Rightarrow> char \<Rightarrow> char \<Rightarrow> char \<Rightarrow> nat option" where
  "hex4 a b c d =
     (case hexval a of
        None \<Rightarrow> None
      | Some w \<Rightarrow>
          (case hexval b of
             None \<Rightarrow> None
           | Some x \<Rightarrow>
               (case hexval c of
                  None \<Rightarrow> None
                | Some y \<Rightarrow>
                    (case hexval d of
                       None \<Rightarrow> None
                     | Some z \<Rightarrow> Some (((w * 16 + x) * 16 + y) * 16 + z)))))"

definition utf8 :: "nat \<Rightarrow> string" where
  \<comment> \<open>the UTF-8 bytes of a code point below 0x10000\<close>
  "utf8 n =
     (if n < 0x80 then [char_of n]
      else if n < 0x800 then [char_of (0xC0 + n div 64), char_of (0x80 + n mod 64)]
      else [char_of (0xE0 + n div 4096), char_of (0x80 + n div 64 mod 64),
            char_of (0x80 + n mod 64)])"

definition unescape :: "char \<Rightarrow> char option" where
  \<comment> \<open>the table \<^verbatim>\<open>BACKSLASH\<close>\<close>
  "unescape e =
     (if e = CHR 0x22 then Some (CHR 0x22)
      else if e = CHR 0x5C then Some (CHR 0x5C)
      else if e = CHR ''/'' then Some (CHR ''/'')
      else if e = CHR ''b'' then Some (CHR 0x08)
      else if e = CHR ''f'' then Some (CHR 0x0C)
      else if e = CHR ''n'' then Some (CHR 0x0A)
      else if e = CHR ''r'' then Some (CHR 0x0D)
      else if e = CHR ''t'' then Some (CHR 0x09)
      else None)"

definition emit :: "string \<Rightarrow> failure + string \<times> string \<Rightarrow> failure + string \<times> string" where
  "emit pre r = (case r of Inl e \<Rightarrow> Inl e | Inr (s, rest) \<Rightarrow> Inr (pre @ s, rest))"

fun scanstring :: "string \<Rightarrow> failure + string \<times> string" where
  "scanstring [] = Inl (Raises JSONDecodeError)"
| "scanstring (c # cs) =
     (if c = CHR 0x22 then Inr ([], cs)
      else if c = CHR 0x5C then
        (case cs of
           [] \<Rightarrow> Inl (Raises JSONDecodeError)
         | e # cs1 \<Rightarrow>
             if e = CHR ''u'' then
               (case cs1 of
                  h1 # h2 # h3 # h4 # cs2 \<Rightarrow>
                    (case hex4 h1 h2 h3 h4 of
                       None \<Rightarrow> Inl (Raises JSONDecodeError)
                     | Some uni \<Rightarrow>
                         if 0xD800 \<le> uni \<and> uni \<le> 0xDFFF then Inl Not_modelled
                         else emit (utf8 uni) (scanstring cs2))
                | _ \<Rightarrow> Inl (Raises JSONDecodeError))
             else
               (case unescape e of
                  None \<Rightarrow> Inl (Raises JSONDecodeError)
                | Some ch \<Rightarrow> emit [ch] (scanstring cs1)))
      else if (of_char c :: nat) < 0x20 then Inl (Raises JSONDecodeError)
      else emit [c] (scanstring cs))"

fun skip_ws :: "string \<Rightarrow> string" where
  "skip_ws [] = []"
| "skip_ws (c # cs) =
     (if c = CHR '' '' \<or> c = CHR 0x09 \<or> c = CHR 0x0A \<or> c = CHR 0x0D then skip_ws cs
      else c # cs)"

definition starts_number :: "char \<Rightarrow> bool" where
  \<comment> \<open>a digit or a sign, or the first letter of \<^verbatim>\<open>NaN\<close> and \<^verbatim>\<open>Infinity\<close>\<close>
  "starts_number c =
     (c = CHR ''-'' \<or> c = CHR ''N'' \<or> c = CHR ''I''
      \<or> (0x30 \<le> (of_char c :: nat) \<and> (of_char c :: nat) \<le> 0x39))"

text \<open>
  The scanner. Every call spends one unit of \<open>fuel\<close>, and a call that finds none left
  answers \<open>Out_of_fuel\<close>. \<open>json_loads\<close> starts with two units for each character of the
  text and two more, which no text uses up. \<open>room\<close> is again the number of nested lists and
  dicts the stack has room for: the scanner raises \<^verbatim>\<open>RecursionError\<close> at a bracket that
  finds none.
\<close>

fun parse_value :: "nat \<Rightarrow> nat \<Rightarrow> string \<Rightarrow> failure + json \<times> string"
  and parse_elements :: "nat \<Rightarrow> nat \<Rightarrow> json list \<Rightarrow> string \<Rightarrow> failure + json \<times> string"
  and parse_members ::
    "nat \<Rightarrow> nat \<Rightarrow> (string \<times> json) list \<Rightarrow> string \<Rightarrow> failure + json \<times> string"
where
  "parse_value 0 room s = Inl Out_of_fuel"
| "parse_value (Suc n) room s =
     (case s of
        [] \<Rightarrow> Inl (Raises JSONDecodeError)
      | c # cs \<Rightarrow>
          if c = CHR 0x22 then
            (case scanstring cs of
               Inl e \<Rightarrow> Inl e
             | Inr (str, rest) \<Rightarrow> Inr (JStr str, rest))
          else if c = CHR ''{'' then
            (case room of
               0 \<Rightarrow> Inl (Raises RecursionError)
             | Suc r \<Rightarrow>
                 (case skip_ws cs of
                    [] \<Rightarrow> Inl (Raises JSONDecodeError)
                  | d # ds \<Rightarrow>
                      if d = CHR ''}'' then Inr (JObj [], ds)
                      else if d = CHR 0x22 then parse_members n r [] (d # ds)
                      else Inl (Raises JSONDecodeError)))
          else if c = CHR ''['' then
            (case room of
               0 \<Rightarrow> Inl (Raises RecursionError)
             | Suc r \<Rightarrow>
                 (case skip_ws cs of
                    [] \<Rightarrow> Inl (Raises JSONDecodeError)
                  | d # ds \<Rightarrow>
                      if d = CHR '']'' then Inr (JArr [], ds)
                      else parse_elements n r [] (d # ds)))
          else if take 4 s = ''null'' then Inr (JNull, drop 4 s)
          else if take 4 s = ''true'' then Inr (JBool True, drop 4 s)
          else if take 5 s = ''false'' then Inr (JBool False, drop 5 s)
          else if starts_number c then Inl Not_modelled
          else Inl (Raises JSONDecodeError))"
| "parse_elements 0 room acc s = Inl Out_of_fuel"
| "parse_elements (Suc n) room acc s =
     (case parse_value n room s of
        Inl e \<Rightarrow> Inl e
      | Inr (v, rest) \<Rightarrow>
          (case skip_ws rest of
             [] \<Rightarrow> Inl (Raises JSONDecodeError)
           | d # ds \<Rightarrow>
               if d = CHR '']'' then Inr (JArr (acc @ [v]), ds)
               else if d = CHR '','' then parse_elements n room (acc @ [v]) (skip_ws ds)
               else Inl (Raises JSONDecodeError)))"
| "parse_members 0 room acc s = Inl Out_of_fuel"
| "parse_members (Suc n) room acc s =
     (case s of
        [] \<Rightarrow> Inl (Raises JSONDecodeError)
      | q # cs \<Rightarrow>
          if q \<noteq> CHR 0x22 then Inl (Raises JSONDecodeError)
          else
            (case scanstring cs of
               Inl e \<Rightarrow> Inl e
             | Inr (key, rest) \<Rightarrow>
                 (case skip_ws rest of
                    [] \<Rightarrow> Inl (Raises JSONDecodeError)
                  | colon # r1 \<Rightarrow>
                      if colon \<noteq> CHR '':'' then Inl (Raises JSONDecodeError)
                      else
                        (case parse_value n room (skip_ws r1) of
                           Inl e \<Rightarrow> Inl e
                         | Inr (v, rest2) \<Rightarrow>
                             (case skip_ws rest2 of
                                [] \<Rightarrow> Inl (Raises JSONDecodeError)
                              | d # ds \<Rightarrow>
                                  if d = CHR ''}'' then Inr (JObj (AList.update key v acc), ds)
                                  else if d = CHR '','' then
                                    parse_members n room (AList.update key v acc) (skip_ws ds)
                                  else Inl (Raises JSONDecodeError))))))"

definition json_loads :: "nat \<Rightarrow> string \<Rightarrow> failure + json" where
  "json_loads room s =
     (case parse_value (2 * length s + 2) room (skip_ws s) of
        Inl e \<Rightarrow> Inl e
      | Inr (v, rest) \<Rightarrow> if skip_ws rest = [] then Inr v else Inl (Raises JSONDecodeError))"

text \<open>
  The files: their bytes by name, and the names that cannot be opened for writing.

  \<^verbatim>\<open>save_conversation\<close> opens the file, which empties it, and writes the chunks as they
  come. A chunk that cannot be encoded raises \<^verbatim>\<open>UnicodeEncodeError\<close>; so the file is left
  with the chunks before it, or with those before the encoder stopped, and the first of
  the two failures is the one raised. The result is the failure, if any, and the files as
  they are left.

  \<^verbatim>\<open>load_conversation\<close> reads the whole file, which raises \<^verbatim>\<open>UnicodeDecodeError\<close> on bytes
  that are not UTF-8, and stores what \<^verbatim>\<open>json.load\<close> makes of the text. A failure leaves the
  history as it was. (Reading in text mode turns the line ends \<^verbatim>\<open>\r\n\<close> and \<^verbatim>\<open>\r\<close> into
  \<^verbatim>\<open>\n\<close>; the scanner takes all three as white space between values and refuses all three
  inside a string, so the translation is left out.)
\<close>

record filesystem =
  files :: "(string \<times> string) list"
  read_only :: "string list"

definition save_conversation ::
  "nat \<Rightarrow> string \<Rightarrow> LMStudioMCPChatbot \<Rightarrow> filesystem \<Rightarrow> failure option \<times> filesystem" where
  "save_conversation room filename b fs =
     (if filename \<in> set (read_only fs) then (Some (Raises (OSError filename)), fs)
      else case iterencode room 0 (conversation_history b) of
             (cs, stopped) \<Rightarrow>
               (if list_all utf8_valid cs then stopped else Some (Raises UnicodeEncodeError),
                fs\<lparr>files :=
                     AList.update filename (concat (takeWhile utf8_valid cs)) (files fs)\<rparr>))"

definition load_conversation ::
  "nat \<Rightarrow> string \<Rightarrow> LMStudioMCPChatbot \<Rightarrow> filesystem \<Rightarrow> failure + LMStudioMCPChatbot" where
  "load_conversation room filename b fs =
     (case map_of (files fs) filename of
        None \<Rightarrow> Inl (Raises (OSError filename))
      | Some bytes \<Rightarrow>
          if \<not> utf8_valid bytes then Inl (Raises UnicodeDecodeError)
          else case json_loads room bytes of
                 Inl e \<Rightarrow> Inl e
               | Inr v \<Rightarrow> Inr (b\<lparr>conversation_history := v\<rparr>))"

text \<open>A history of turns with string fields, from the pairs of role and content.\<close>

definition history_of :: "(string \<times> string) list \<Rightarrow> json" where
  "history_of turns = JArr (map (\<lambda>(role, content). turn role (JStr content)) turns)"

text \<open>
  The chunks and the text of one turn with string fields, as they stand inside the list,
  and those of the turns of a list, the first after \<open>buf\<close>.
\<close>

definition turn_chunks :: "string \<Rightarrow> string \<Rightarrow> string list" where
  "turn_chunks role content =
     [''{'', newline_indent (Suc (Suc 0)),
      encode_basestring ''role'', '': '', encode_basestring role,
      CHR '','' # newline_indent (Suc (Suc 0)),
      encode_basestring ''content'', '': '', encode_basestring content,
      newline_indent (Suc 0), ''}'']"

definition turn_text :: "string \<Rightarrow> string \<Rightarrow> string" where
  "turn_text role content =
     bracket CHR ''{'' CHR ''}'' (Suc 0)
       [encode_basestring ''role'' @ '': '' @ encode_basestring role,
        encode_basestring ''content'' @ '': '' @ encode_basestring content]"

definition turn_texts :: "(string \<times> string) list \<Rightarrow> string list" where
  "turn_texts turns = map (\<lambda>(role, content). turn_text role content) turns"

definition history_text :: "(string \<times> string) list \<Rightarrow> string" where
  "history_text turns =
     (if turns = [] then ''[]'' else bracket CHR ''['' CHR '']'' 0 (turn_texts turns))"

fun turns_chunks :: "string \<Rightarrow> (string \<times> string) list \<Rightarrow> string list" where
  "turns_chunks buf [] = []"
| "turns_chunks buf (t # ts) =
     buf # turn_chunks (fst t) (snd t) @ turns_chunks (CHR '','' # newline_indent (Suc 0)) ts"

section \<open>Stub children and servers\<close>

text \<open>A \<^verbatim>\<open>Popen\<close> under which every spawn succeeds, with the given child.\<close>

definition always_spawns ::
  "process \<Rightarrow> string list \<Rightarrow> (string \<times> string) list \<Rightarrow> exn + process" where
  "always_spawns p cmd env1 = Inr p"

definition demo_server :: MCPServer where
  "demo_server = new_MCPServer ''A'' [''run''] None None []"

text \<open>A child that runs and closes its stdout without writing a line.\<close>

definition quiet_child :: process where
  "quiet_child =
     \<lparr>alive = True, written = [], pending = [], closes_stdout = True, signalled = False\<rparr>"

text \<open>A child that runs, keeps its stdout open and never writes a line.\<close>

definition silent_child :: process where
  "silent_child = quiet_child\<lparr>closes_stdout := False\<rparr>"

text \<open>A child whose first line is not JSON.\<close>

definition babbling_child :: process where
  "babbling_child = quiet_child\<lparr>pending := [Text Not_json]\<rparr>"

text \<open>A child that answers the handshake, advertises one tool and stays there.\<close>

definition echo_child :: process where
  "echo_child =
     \<lparr>alive = True, written = [],
      pending =
        [Text (Json (JObj [(''result'', JObj [])])),
         Text (Json (JObj [(''result'',
                            JObj [(''tools'', JArr [JObj [(''name'', JStr ''echo'')]])])]))],
      closes_stdout = False, signalled = False\<rparr>"

definition empty_world :: world where
  "empty_world = \<lparr>procs = [], logged = []\<rparr>"

lemmas model_defs =
  new_MCPServer_def post_init_def add_server_def init_manager_def log_def start_server_def
  spawn_def build_env_def build_cmd_def dict_update_def initialize_server_def exchange_def
  write_line_def readline_def loads_def get_tools_def has_tools_def result_tools_def py_in_def
  py_getitem_def py_len_def stop_server_def terminate_def get_available_tools_list_def
  py_iter_def tag_tool_def call_tool_def always_spawns_def demo_server_def quiet_child_def
  silent_child_def babbling_child_def echo_child_def empty_world_def

section \<open>What the handshake touches\<close>

lemma procs_log [simp]: "procs (log e w) = procs w"
  by (simp add: log_def)










section \<open>Starting a server\<close>

text \<open>
  Claim C7. For a name that is not among the registered servers, \<open>start_server\<close> returns
  \<open>False\<close> after logging that the server was not found; no process is spawned and the
  manager, with its connections, is left as it was.
\<close>

theorem start_server_unknown:
  "map_of (servers m) server_name = None \<Longrightarrow>
     start_server popen environ server_name m w
       = (Some False, m, log (Error_not_found server_name) w)
     \<and> procs (snd (snd (start_server popen environ server_name m w))) = procs w
     \<and> active_connections (fst (snd (start_server popen environ server_name m w)))
         = active_connections m"
  by (simp add: start_server_def)

theorem start_server_unknown_witness:
  "map_of (servers init_manager) ''ghost'' = None
   \<and> start_server (always_spawns quiet_child) [] ''ghost'' init_manager empty_world
       = (Some False, init_manager, log (Error_not_found ''ghost'') empty_world)"
  using start_server_unknown
    [of init_manager "''ghost''" "always_spawns quiet_child" "[]" empty_world]
  by (simp add: init_manager_def)

text \<open>
  Claim C9. However \<open>args\<close> and \<open>env\<close> are given to the constructor, also as \<^verbatim>\<open>None\<close>,
  the constructed server holds a list and a mapping, so the command line and the
  environment that \<open>start_server\<close> builds from it are defined.
\<close>

theorem new_MCPServer_defined:
  "args (new_MCPServer n c a e d) \<noteq> None
   \<and> env (new_MCPServer n c a e d) \<noteq> None
   \<and> build_cmd (new_MCPServer n c a e d) = Inr (c @ (case a of None \<Rightarrow> [] | Some x \<Rightarrow> x))
   \<and> build_env environ (new_MCPServer n c a e d)
       = Inr (dict_update environ (case e of None \<Rightarrow> [] | Some x \<Rightarrow> x))"
  by (cases a; cases e)
    (simp_all add: new_MCPServer_def post_init_def build_cmd_def build_env_def)




section \<open>The handshake\<close>




section \<open>Calling a tool\<close>

text \<open>
  Claim C3, on the code: \<open>call_tool\<close> on a name without a connection raises
  \<^verbatim>\<open>Exception("Server ... not connected")\<close>; but on a connected server whose child sends
  no line, it returns \<^verbatim>\<open>None\<close> and raises nothing, where the claim has a protocol
  error.
\<close>

theorem call_tool_no_line_returns_None:
  "(case add_server demo_server init_manager empty_world of (m0, w0) \<Rightarrow>
     case start_server (always_spawns quiet_child) [] ''A'' m0 w0 of (ok, m1, w1) \<Rightarrow>
       fst (call_tool ''B'' ''echo'' (JObj [(''message'', JStr ''hi'')]) m1 w1)
         = Some (Inl (PyException ''Server B not connected''))
       \<and> map_of (active_connections m1) ''A'' = Some 0
       \<and> call_tool ''A'' ''echo'' (JObj [(''message'', JStr ''hi'')]) m1 w1
           = (Some (Inr None),
              w1\<lparr>procs := [quiet_child\<lparr>written :=
                     [Initialize, ToolsCall ''echo'' (JObj [(''message'', JStr ''hi'')])]\<rparr>]\<rparr>))"
  by (simp add: model_defs)

section \<open>The tool catalog\<close>

text \<open>
  Claim C4 as stated fails: after the server \<open>A\<close> is started and stopped, its child has
  been sent the signal and its connection is removed, and the tool list still offers its
  tool.
\<close>

theorem stale_tools_counterexample:
  "(case add_server demo_server init_manager empty_world of (m0, w0) \<Rightarrow>
     case start_server (always_spawns echo_child) [] ''A'' m0 w0 of (ok, m1, w1) \<Rightarrow>
     case stop_server ''A'' m1 w1 of (m2, w2) \<Rightarrow>
       ok = Some True
       \<and> active_connections m2 = []
       \<and> map signalled (procs w2) = [True]
       \<and> get_available_tools_list m2
           = Inr [JObj [(''name'', JStr ''echo''), (''server'', JStr ''A'')]])"
  by (simp add: model_defs)

text \<open>
  Claim C4, amended. \<open>stop_server\<close> sends \<^verbatim>\<open>SIGTERM\<close> to the running child recorded
  under the name, without waiting for it to exit, removes the connection of the name and
  leaves the catalog alone: the tool list after the stop is the tool list before it, the
  tools of the stopped server among them.
\<close>

theorem stop_server_keeps_tools:
  "map_of (active_connections (fst (stop_server server_name m w))) server_name = None
   \<and> available_tools (fst (stop_server server_name m w)) = available_tools m
   \<and> get_available_tools_list (fst (stop_server server_name m w)) = get_available_tools_list m
   \<and> (\<forall>h. map_of (active_connections m) server_name = Some h \<and> h < length (procs w)
            \<and> alive (procs w ! h)
         \<longrightarrow> procs (snd (stop_server server_name m w)) ! h
               = (procs w ! h)\<lparr>signalled := True\<rparr>)"
  by (simp add: stop_server_def get_available_tools_list_def delete_conv' terminate_def
      split: option.splits)

theorem stop_server_keeps_tools_witness:
  "(case add_server demo_server init_manager empty_world of (m0, w0) \<Rightarrow>
     case start_server (always_spawns echo_child) [] ''A'' m0 w0 of (ok, m1, w1) \<Rightarrow>
       map_of (active_connections m1) ''A'' = Some 0
       \<and> 0 < length (procs w1)
       \<and> alive (procs w1 ! 0)
       \<and> signalled (procs (snd (stop_server ''A'' m1 w1)) ! 0)
       \<and> alive (procs (snd (stop_server ''A'' m1 w1)) ! 0)
       \<and> get_available_tools_list (fst (stop_server ''A'' m1 w1)) = get_available_tools_list m1
       \<and> get_available_tools_list m1
           = Inr [JObj [(''name'', JStr ''echo''), (''server'', JStr ''A'')]])"
proof -
  obtain m0 w0 where a: "add_server demo_server init_manager empty_world = (m0, w0)"
    by (cases "add_server demo_server init_manager empty_world")
  obtain ok m1 w1 where
    s: "start_server (always_spawns echo_child) [] ''A'' m0 w0 = (ok, m1, w1)"
    by (cases "start_server (always_spawns echo_child) [] ''A'' m0 w0")
  have m0: "m0 = \<lparr>servers = [(''A'', demo_server)], active_connections = [],
                  available_tools = []\<rparr>"
    and w0: "w0 = \<lparr>procs = [], logged = [Info_added ''A'']\<rparr>"
    using a by (auto simp add: model_defs)
  have c: "map_of (active_connections m1) ''A'' = Some 0"
    and n: "0 < length (procs w1)"
    and r: "alive (procs w1 ! 0)"
    and t: "get_available_tools_list m1
              = Inr [JObj [(''name'', JStr ''echo''), (''server'', JStr ''A'')]]"
    using s unfolding m0 w0 by (auto simp add: model_defs)
  show ?thesis
    using stop_server_keeps_tools [of "''A''" m1 w1] c n r t
    by (simp add: a s)
qed

section \<open>Choosing a model\<close>

lemma startswith_Error [simp]: "startswith (''Error: '' @ s) ''Error''"
  by (simp add: startswith_def)

lemma resolve_model_falsy: "falsy model_name \<Longrightarrow> resolve_model c model_name = pick_model c"
  by (cases model_name) (simp_all add: falsy_def resolve_model_def)

lemma pick_model_marker:
  "pick_model c =
     (if no_model_marker (get_available_models c) then Inl no_models
      else Inr (hd (get_available_models c)))"
  by (simp add: pick_model_def no_model_marker_def Let_def split: list.splits)

lemma str_no_models [simp]: "str_exc no_models = ''No models available in LM Studio''"
  by (simp add: no_models_def)

lemma chat_unresolved:
  assumes "conversation_history b = JArr h" and "resolve_model c model_name = Inl e"
  shows "chat c message model_name b =
           (Inr (Some (''Error: '' @ str_exc e)),
            b\<lparr>conversation_history := JArr (h @ [turn ''user'' (JStr message)])\<rparr>)"
  using assms by (simp add: chat_def py_append_def)

lemma gen_next_unresolved:
  assumes "conversation_history b = JArr h" and "resolve_model c model_name = Inl e"
  shows "gen_next c (stream_chat message model_name) b =
           (Inr (Some (''Error: '' @ str_exc e)), In_handler,
            b\<lparr>conversation_history := JArr (h @ [turn ''user'' (JStr message)])\<rparr>)"
  using assms by (simp add: gen_next_def stream_chat_def py_append_def)

text \<open>
  Claim C5. When \<open>chat\<close> is called without a model name and the listing of models is
  empty or raises, it returns the error text for no available model, and the history
  afterwards is the prior history with the user turn appended and nothing else.
\<close>

theorem chat_no_model_available:
  assumes "conversation_history b = JArr h"
    and "falsy model_name"
    and "models_list c = Inr [] \<or> (\<exists>e. models_list c = Inl e)"
  shows "chat c message model_name b =
           (Inr (Some ''Error: No models available in LM Studio''),
            b\<lparr>conversation_history := JArr (h @ [turn ''user'' (JStr message)])\<rparr>)"
proof -
  have "no_model_marker (get_available_models c)"
    using assms(3)
    by (auto simp add: get_available_models_def no_model_marker_def startswith_def)
  then have "resolve_model c model_name = Inl no_models"
    using assms(2) by (simp add: resolve_model_falsy pick_model_marker)
  then show ?thesis
    using chat_unresolved [OF assms(1), of c model_name no_models message] by simp
qed

theorem chat_no_model_available_witness:
  "conversation_history init_chatbot = JArr []
   \<and> falsy None
   \<and> models_list empty_client = Inr []
   \<and> chat empty_client ''hello'' None init_chatbot =
       (Inr (Some ''Error: No models available in LM Studio''),
        init_chatbot\<lparr>conversation_history :=
          JArr [JObj [(''role'', JStr ''user''), (''content'', JStr ''hello'')]]\<rparr>)
   \<and> models_list down_client = Inl (Exc ''APIConnectionError'' ''Connection error.'')
   \<and> chat down_client ''hello'' (Some []) init_chatbot =
       (Inr (Some ''Error: No models available in LM Studio''),
        init_chatbot\<lparr>conversation_history :=
          JArr [JObj [(''role'', JStr ''user''), (''content'', JStr ''hello'')]]\<rparr>)"
proof -
  have h: "conversation_history init_chatbot = JArr []"
    by (simp add: init_chatbot_def)
  have f1: "falsy None" and f2: "falsy (Some [])"
    by (simp_all add: falsy_def)
  have e: "models_list empty_client = Inr []"
    by (simp add: empty_client_def)
  have d: "models_list down_client = Inl (Exc ''APIConnectionError'' ''Connection error.'')"
    by (simp add: down_client_def)
  have e': "models_list empty_client = Inr [] \<or> (\<exists>e. models_list empty_client = Inl e)"
    using e by simp
  have d': "models_list down_client = Inr [] \<or> (\<exists>e. models_list down_client = Inl e)"
    using d by simp
  show ?thesis
    using chat_no_model_available [OF h f1 e', of "''hello''"]
      chat_no_model_available [OF h f2 d', of "''hello''"] h f1 e d
    by (simp add: turn_def)
qed

text \<open>
  Claim C10. \<open>get_available_models\<close> returns a list in every case: when the listing
  raises, the list has the one element \<^verbatim>\<open>Error: {exc}\<close>. Without a model name, \<open>chat\<close> and
  \<open>stream_chat\<close> give up for want of a model exactly when that list is empty or its first
  element starts with \<^verbatim>\<open>Error\<close>: then they answer with the error text and ask the model
  server nothing. Otherwise they send the request for the first element of the list, and
  their answer is what the model server makes of it.
\<close>

theorem no_model_marker_decides:
  "(models_list c = Inl e \<longrightarrow>
      get_available_models c = [''Error: '' @ str_exc e]
      \<and> startswith (hd (get_available_models c)) ''Error:'')
   \<and> (models_list c = Inr ids \<longrightarrow> get_available_models c = ids)
   \<and> (falsy model_name \<longrightarrow>
        (resolve_model c model_name = Inl no_models)
          = no_model_marker (get_available_models c)
        \<and> (\<not> no_model_marker (get_available_models c) \<longrightarrow>
             resolve_model c model_name = Inr (hd (get_available_models c))))
   \<and> (falsy model_name \<and> conversation_history b = JArr h \<longrightarrow>
        chat c message model_name b =
          (if no_model_marker (get_available_models c)
           then (Inr (Some ''Error: No models available in LM Studio''),
                 b\<lparr>conversation_history := JArr (h @ [turn ''user'' (JStr message)])\<rparr>)
           else case create c (hd (get_available_models c))
                       (JArr (h @ [turn ''user'' (JStr message)])) of
                  Inl x \<Rightarrow>
                    (Inr (Some (''Error: '' @ str_exc x)),
                     b\<lparr>conversation_history := JArr (h @ [turn ''user'' (JStr message)])\<rparr>)
                | Inr assistant_msg \<Rightarrow>
                    (Inr assistant_msg,
                     b\<lparr>conversation_history :=
                         JArr (h @ [turn ''user'' (JStr message),
                                    turn ''assistant'' (content_of assistant_msg)])\<rparr>))
        \<and> gen_next c (stream_chat message model_name) b =
          (if no_model_marker (get_available_models c)
           then (Inr (Some ''Error: No models available in LM Studio''), In_handler,
                 b\<lparr>conversation_history := JArr (h @ [turn ''user'' (JStr message)])\<rparr>)
           else case create_stream c (hd (get_available_models c))
                       (JArr (h @ [turn ''user'' (JStr message)])) of
                  Inl x \<Rightarrow>
                    (Inr (Some (''Error: '' @ str_exc x)), In_handler,
                     b\<lparr>conversation_history := JArr (h @ [turn ''user'' (JStr message)])\<rparr>)
                | Inr (chunks, err) \<Rightarrow>
                    (case loop [] chunks err
                            (b\<lparr>conversation_history :=
                                JArr (h @ [turn ''user'' (JStr message)])\<rparr>) of
                       (r, g1, b2) \<Rightarrow> (Inr r, g1, b2))))"
proof -
  have listing: "models_list c = Inl e \<longrightarrow>
      get_available_models c = [''Error: '' @ str_exc e]
      \<and> startswith (hd (get_available_models c)) ''Error:''"
    by (simp add: get_available_models_def startswith_def)
  have ids: "models_list c = Inr ids \<longrightarrow> get_available_models c = ids"
    by (simp add: get_available_models_def)
  have resolved: "falsy model_name \<longrightarrow>
        (resolve_model c model_name = Inl no_models)
          = no_model_marker (get_available_models c)
        \<and> (\<not> no_model_marker (get_available_models c) \<longrightarrow>
             resolve_model c model_name = Inr (hd (get_available_models c)))"
    by (simp add: resolve_model_falsy pick_model_marker)
  have chats: "chat c message model_name b =
          (if no_model_marker (get_available_models c)
           then (Inr (Some ''Error: No models available in LM Studio''),
                 b\<lparr>conversation_history := JArr (h @ [turn ''user'' (JStr message)])\<rparr>)
           else case create c (hd (get_available_models c))
                       (JArr (h @ [turn ''user'' (JStr message)])) of
                  Inl x \<Rightarrow>
                    (Inr (Some (''Error: '' @ str_exc x)),
                     b\<lparr>conversation_history := JArr (h @ [turn ''user'' (JStr message)])\<rparr>)
                | Inr assistant_msg \<Rightarrow>
                    (Inr assistant_msg,
                     b\<lparr>conversation_history :=
                         JArr (h @ [turn ''user'' (JStr message),
                                    turn ''assistant'' (content_of assistant_msg)])\<rparr>))"
    if f: "falsy model_name" and hist: "conversation_history b = JArr h"
  proof (cases "no_model_marker (get_available_models c)")
    case True
    then have "resolve_model c model_name = Inl no_models"
      using f by (simp add: resolve_model_falsy pick_model_marker)
    then show ?thesis
      using chat_unresolved [OF hist, of c model_name no_models message] True by simp
  next
    case False
    then have "resolve_model c model_name = Inr (hd (get_available_models c))"
      using f by (simp add: resolve_model_falsy pick_model_marker)
    then show ?thesis
      using hist False by (simp add: chat_def py_append_def split: sum.splits)
  qed
  have streams: "gen_next c (stream_chat message model_name) b =
          (if no_model_marker (get_available_models c)
           then (Inr (Some ''Error: No models available in LM Studio''), In_handler,
                 b\<lparr>conversation_history := JArr (h @ [turn ''user'' (JStr message)])\<rparr>)
           else case create_stream c (hd (get_available_models c))
                       (JArr (h @ [turn ''user'' (JStr message)])) of
                  Inl x \<Rightarrow>
                    (Inr (Some (''Error: '' @ str_exc x)), In_handler,
                     b\<lparr>conversation_history := JArr (h @ [turn ''user'' (JStr message)])\<rparr>)
                | Inr (chunks, err) \<Rightarrow>
                    (case loop [] chunks err
                            (b\<lparr>conversation_history :=
                                JArr (h @ [turn ''user'' (JStr message)])\<rparr>) of
                       (r, g1, b2) \<Rightarrow> (Inr r, g1, b2)))"
    if f: "falsy model_name" and hist: "conversation_history b = JArr h"
  proof (cases "no_model_marker (get_available_models c)")
    case True
    then have "resolve_model c model_name = Inl no_models"
      using f by (simp add: resolve_model_falsy pick_model_marker)
    then show ?thesis
      using gen_next_unresolved [OF hist, of c model_name no_models message] True by simp
  next
    case False
    then have "resolve_model c model_name = Inr (hd (get_available_models c))"
      using f by (simp add: resolve_model_falsy pick_model_marker)
    then show ?thesis
      using hist False
      by (simp add: gen_next_def stream_chat_def py_append_def split: sum.splits prod.splits)
  qed
  show ?thesis
    using listing ids resolved chats streams by blast
qed

theorem no_model_marker_decides_witness:
  "models_list down_client = Inl (Exc ''APIConnectionError'' ''Connection error.'')
   \<and> get_available_models down_client = [''Error: Connection error.'']
   \<and> models_list hello_client = Inr [''m1'']
   \<and> get_available_models hello_client = [''m1'']
   \<and> falsy None
   \<and> resolve_model down_client None = Inl no_models
   \<and> \<not> no_model_marker (get_available_models hello_client)
   \<and> resolve_model hello_client None = Inr ''m1''
   \<and> conversation_history init_chatbot = JArr []
   \<and> chat down_client ''hi'' None init_chatbot =
       (Inr (Some ''Error: No models available in LM Studio''),
        init_chatbot\<lparr>conversation_history := JArr [turn ''user'' (JStr ''hi'')]\<rparr>)
   \<and> chat hello_client ''hi'' None init_chatbot =
       (Inr (Some ''Hello world''),
        init_chatbot\<lparr>conversation_history :=
          JArr [turn ''user'' (JStr ''hi''), turn ''assistant'' (JStr ''Hello world'')]\<rparr>)
   \<and> gen_next hello_client (stream_chat ''hi'' None) init_chatbot =
       (Inr (Some ''Hel''), In_loop ''Hel'' [None, Some [], Some ''lo '', Some ''world''] None,
        init_chatbot\<lparr>conversation_history := JArr [turn ''user'' (JStr ''hi'')]\<rparr>)"
proof -
  have d: "models_list down_client = Inl (Exc ''APIConnectionError'' ''Connection error.'')"
    by (simp add: down_client_def)
  have l: "models_list hello_client = Inr [''m1'']"
    by (simp add: hello_client_def)
  have f: "falsy None"
    by (simp add: falsy_def)
  have h: "conversation_history init_chatbot = JArr []"
    by (simp add: init_chatbot_def)
  have m: "\<not> no_model_marker [''m1'']" and m': "no_model_marker [''Error: Connection error.'']"
    by (simp_all add: no_model_marker_def startswith_def)
  have answers: "create hello_client ''m1'' msgs = Inr (Some ''Hello world'')"
    and streams: "create_stream hello_client ''m1'' msgs
                    = Inr ([Some ''Hel'', None, Some [], Some ''lo '', Some ''world''], None)"
    for msgs
    by (simp_all add: hello_client_def)
  show ?thesis
    using no_model_marker_decides
        [of down_client "Exc ''APIConnectionError'' ''Connection error.''" "[]" None
          init_chatbot "[]" "''hi''"]
      no_model_marker_decides [of hello_client "Exc [] []" "[''m1'']" None init_chatbot "[]" "''hi''"]
      d l f h m m'
    by (simp add: answers streams content_of_def)
qed

section \<open>Streaming\<close>

lemma concat_fragments: "concat (fragments chunks) = delivered chunks"
  by (induction chunks) (auto simp add: fragments_def delivered_def split: option.splits)

lemma consume_In_loop:
  "consume c (In_loop full chunks err) b =
     (case loop full chunks err b of
        (None, g', b') \<Rightarrow> (Inr [], b')
      | (Some chunk, g', b') \<Rightarrow>
          (case consume c g' b' of
             (Inl e, b'') \<Rightarrow> (Inl e, b'')
           | (Inr rest, b'') \<Rightarrow> (Inr (chunk # rest), b'')))"
  by (subst consume.simps) (simp add: gen_next_def split: prod.splits option.splits)

lemma consume_loop:
  assumes "conversation_history b = JArr hs"
  shows "consume c (In_loop full chunks None) b =
           (Inr (fragments chunks),
            b\<lparr>conversation_history :=
                JArr (hs @ [turn ''assistant'' (JStr (full @ delivered chunks))])\<rparr>)"
  using assms
proof (induction chunks arbitrary: full)
  case Nil
  then show ?case
    by (simp add: consume_In_loop py_append_def fragments_def delivered_def)
next
  case (Cons delta chunks)
  show ?case
  proof (cases "delta = None \<or> delta = Some []")
    case True
    then have "consume c (In_loop full (delta # chunks) None) b
                 = consume c (In_loop full chunks None) b"
      by (auto simp add: consume_In_loop)
    moreover have "fragments (delta # chunks) = fragments chunks"
      and "delivered (delta # chunks) = delivered chunks"
      using True by (auto simp add: fragments_def delivered_def)
    ultimately show ?thesis
      using Cons.IH [OF Cons.prems, of full] by simp
  next
    case False
    then obtain d where d: "delta = Some d" "d \<noteq> []"
      by (cases delta) auto
    have "consume c (In_loop full (delta # chunks) None) b =
            (case consume c (In_loop (full @ d) chunks None) b of
               (Inl e, b'') \<Rightarrow> (Inl e, b'')
             | (Inr rest, b'') \<Rightarrow> (Inr (d # rest), b''))"
      using d by (subst consume_In_loop) simp
    moreover have "fragments (delta # chunks) = d # fragments chunks"
      and "delivered (delta # chunks) = d @ delivered chunks"
      using d by (simp_all add: fragments_def delivered_def)
    ultimately show ?thesis
      using Cons.IH [OF Cons.prems, of "full @ d"] by simp
  qed
qed

lemma consume_stream_chat:
  assumes "conversation_history b = JArr h"
    and "resolve_model c model_name = Inr mn"
    and "create_stream c mn (JArr (h @ [turn ''user'' (JStr message)])) = Inr (chunks, None)"
  shows "consume c (stream_chat message model_name) b =
           (Inr (fragments chunks),
            b\<lparr>conversation_history :=
                JArr (h @ [turn ''user'' (JStr message),
                           turn ''assistant'' (JStr (delivered chunks))])\<rparr>)"
proof -
  define b1 where "b1 = b\<lparr>conversation_history := JArr (h @ [turn ''user'' (JStr message)])\<rparr>"
  have b1: "conversation_history b1 = JArr (h @ [turn ''user'' (JStr message)])"
    by (simp add: b1_def)
  have "consume c (stream_chat message model_name) b = consume c (In_loop [] chunks None) b1"
    using assms
    by (subst consume.simps, subst consume_In_loop)
      (simp add: gen_next_def stream_chat_def py_append_def b1_def split: prod.splits)
  then show ?thesis
    using consume_loop [OF b1, of c "[]" chunks] by (simp add: b1_def)
qed

lemma loop_suspended:
  assumes "conversation_history b = JArr hs"
  shows "(\<exists>b'. loop full chunks None b = (None, Finished, b'))
         \<or> (\<exists>d full' chunks'. loop full chunks None b = (Some d, In_loop full' chunks' None, b))"
  using assms
  by (induction chunks arbitrary: full) (auto simp add: py_append_def split: option.splits)

lemma advance_loop:
  assumes "conversation_history b = JArr hs"
  shows "case advance n c (In_loop full chunks None) b of
           (yielded, g, b') \<Rightarrow> g = Finished \<or> b' = b"
  using assms
proof (induction n arbitrary: full chunks)
  case 0
  then show ?case by simp
next
  case (Suc n)
  consider b' where "loop full chunks None b = (None, Finished, b')"
    | d full' chunks' where "loop full chunks None b = (Some d, In_loop full' chunks' None, b)"
    using loop_suspended [OF Suc.prems, of full chunks] by blast
  then show ?case
  proof cases
    case 1
    then show ?thesis by (simp add: gen_next_def)
  next
    case 2
    then show ?thesis
      using Suc.IH [OF Suc.prems, of full' chunks']
      by (simp add: gen_next_def split: prod.splits)
  qed
qed

lemma advance_stream_chat:
  assumes "conversation_history b = JArr h"
    and "resolve_model c model_name = Inr mn"
    and "create_stream c mn (JArr (h @ [turn ''user'' (JStr message)])) = Inr (chunks, None)"
  shows "case advance (Suc n) c (stream_chat message model_name) b of
           (yielded, g, b') \<Rightarrow>
             g = Finished
             \<or> conversation_history b' = JArr (h @ [turn ''user'' (JStr message)])"
proof -
  define b1 where "b1 = b\<lparr>conversation_history := JArr (h @ [turn ''user'' (JStr message)])\<rparr>"
  have b1: "conversation_history b1 = JArr (h @ [turn ''user'' (JStr message)])"
    by (simp add: b1_def)
  have first: "gen_next c (stream_chat message model_name) b =
                 (case loop [] chunks None b1 of (r, g1, b2) \<Rightarrow> (Inr r, g1, b2))"
    using assms by (simp add: gen_next_def stream_chat_def py_append_def b1_def)
  consider b' where "loop [] chunks None b1 = (None, Finished, b')"
    | d full' chunks' where "loop [] chunks None b1 = (Some d, In_loop full' chunks' None, b1)"
    using loop_suspended [OF b1, of "[]" chunks] by blast
  then show ?thesis
  proof cases
    case 1
    then show ?thesis by (simp add: first)
  next
    case 2
    then show ?thesis
      using advance_loop [OF b1, of n c full' chunks'] b1
      by (auto simp add: first split: prod.splits)
  qed
qed

lemma chat_answered:
  assumes "conversation_history b = JArr h"
    and "resolve_model c model_name = Inr mn"
    and "create c mn (JArr (h @ [turn ''user'' (JStr message)])) = Inr (Some text)"
  shows "chat c message model_name b =
           (Inr (Some text),
            b\<lparr>conversation_history :=
                JArr (h @ [turn ''user'' (JStr message), turn ''assistant'' (JStr text)])\<rparr>)"
  using assms by (simp add: chat_def py_append_def content_of_def)

text \<open>
  Claim C6. Against a model server that answers one request with the same text in both
  modes, the fragments \<open>stream_chat\<close> yields concatenate to the text \<open>chat\<close> returns, and
  consuming the whole stream leaves the history \<open>chat\<close> leaves: the user turn and one
  assistant turn holding that text. The assistant turn is appended by the call of
  \<^verbatim>\<open>next()\<close> that ends the stream: a consumer that has called \<^verbatim>\<open>next()\<close> any number
  of times, at least once, and closes the generator before it has finished leaves the
  history with the user turn and no assistant turn.
\<close>

theorem stream_chat_agrees_with_chat:
  assumes "conversation_history b = JArr h"
    and "resolve_model c model_name = Inr mn"
    and "create c mn (JArr (h @ [turn ''user'' (JStr message)])) = Inr (Some text)"
    and "create_stream c mn (JArr (h @ [turn ''user'' (JStr message)])) = Inr (chunks, None)"
    and "delivered chunks = text"
  shows "(\<exists>yielded b'.
            consume c (stream_chat message model_name) b = (Inr yielded, b')
            \<and> fst (chat c message model_name b) = Inr (Some (concat yielded))
            \<and> conversation_history b' =
                JArr (h @ [turn ''user'' (JStr message),
                           turn ''assistant'' (JStr (concat yielded))])
            \<and> b' = snd (chat c message model_name b))
         \<and> (\<forall>n. case advance (Suc n) c (stream_chat message model_name) b of
                  (yielded, g, b') \<Rightarrow>
                    g \<noteq> Finished \<longrightarrow>
                      conversation_history (snd (gen_close g b'))
                        = JArr (h @ [turn ''user'' (JStr message)]))"
proof -
  have whole: "consume c (stream_chat message model_name) b =
           (Inr (fragments chunks),
            b\<lparr>conversation_history :=
                JArr (h @ [turn ''user'' (JStr message),
                           turn ''assistant'' (JStr (delivered chunks))])\<rparr>)"
    using assms(1,2,4) by (rule consume_stream_chat)
  have plain: "chat c message model_name b =
           (Inr (Some text),
            b\<lparr>conversation_history :=
                JArr (h @ [turn ''user'' (JStr message), turn ''assistant'' (JStr text)])\<rparr>)"
    using assms(1,2,3) by (rule chat_answered)
  have early: "case advance (Suc n) c (stream_chat message model_name) b of
                 (yielded, g, b') \<Rightarrow>
                   g \<noteq> Finished \<longrightarrow>
                     conversation_history (snd (gen_close g b'))
                       = JArr (h @ [turn ''user'' (JStr message)])" for n
    using advance_stream_chat [OF assms(1,2,4), of n]
    by (auto simp add: gen_close_def split: prod.splits)
  show ?thesis
    using whole plain early assms(5) by (simp add: concat_fragments)
qed

theorem stream_chat_agrees_with_chat_witness:
  "conversation_history init_chatbot = JArr []
   \<and> resolve_model hello_client None = Inr ''m1''
   \<and> create hello_client ''m1'' (JArr ([] @ [turn ''user'' (JStr ''hi'')]))
       = Inr (Some ''Hello world'')
   \<and> create_stream hello_client ''m1'' (JArr ([] @ [turn ''user'' (JStr ''hi'')]))
       = Inr ([Some ''Hel'', None, Some [], Some ''lo '', Some ''world''], None)
   \<and> delivered [Some ''Hel'', None, Some [], Some ''lo '', Some ''world''] = ''Hello world''
   \<and> (\<exists>yielded b'.
        consume hello_client (stream_chat ''hi'' None) init_chatbot = (Inr yielded, b')
        \<and> concat yielded = ''Hello world''
        \<and> fst (chat hello_client ''hi'' None init_chatbot) = Inr (Some ''Hello world'')
        \<and> conversation_history b' =
            JArr [turn ''user'' (JStr ''hi''), turn ''assistant'' (JStr ''Hello world'')])
   \<and> advance 2 hello_client (stream_chat ''hi'' None) init_chatbot
       = ([''Hel'', ''lo ''], In_loop ''Hello '' [Some ''world''] None,
          init_chatbot\<lparr>conversation_history := JArr [turn ''user'' (JStr ''hi'')]\<rparr>)"
proof -
  have h1: "conversation_history init_chatbot = JArr []"
    by (simp add: init_chatbot_def)
  have h2: "resolve_model hello_client None = Inr ''m1''"
    by (simp add: resolve_model_def pick_model_def get_available_models_def hello_client_def
        no_model_marker_def startswith_def)
  have h3: "create hello_client ''m1'' (JArr ([] @ [turn ''user'' (JStr ''hi'')]))
              = Inr (Some ''Hello world'')"
    by (simp add: hello_client_def)
  have h4: "create_stream hello_client ''m1'' (JArr ([] @ [turn ''user'' (JStr ''hi'')]))
              = Inr ([Some ''Hel'', None, Some [], Some ''lo '', Some ''world''], None)"
    by (simp add: hello_client_def)
  have h5: "delivered [Some ''Hel'', None, Some [], Some ''lo '', Some ''world'']
              = ''Hello world''"
    by (simp add: delivered_def)
  have two: "advance 2 hello_client (stream_chat ''hi'' None) init_chatbot
       = ([''Hel'', ''lo ''], In_loop ''Hello '' [Some ''world''] None,
          init_chatbot\<lparr>conversation_history := JArr [turn ''user'' (JStr ''hi'')]\<rparr>)"
    using h2 h4
    by (simp add: numeral_2_eq_2 gen_next_def stream_chat_def py_append_def init_chatbot_def)
  from stream_chat_agrees_with_chat [OF h1 h2 h3 h4 h5]
  obtain yielded b' where
    "consume hello_client (stream_chat ''hi'' None) init_chatbot = (Inr yielded, b')"
    "fst (chat hello_client ''hi'' None init_chatbot) = Inr (Some (concat yielded))"
    "conversation_history b' =
       JArr ([] @ [turn ''user'' (JStr ''hi''), turn ''assistant'' (JStr (concat yielded))])"
    by blast
  moreover have "fst (chat hello_client ''hi'' None init_chatbot) = Inr (Some ''Hello world'')"
    using chat_answered [OF h1 h2 h3] by simp
  ultimately have "\<exists>yielded b'.
        consume hello_client (stream_chat ''hi'' None) init_chatbot = (Inr yielded, b')
        \<and> concat yielded = ''Hello world''
        \<and> fst (chat hello_client ''hi'' None init_chatbot) = Inr (Some ''Hello world'')
        \<and> conversation_history b' =
            JArr [turn ''user'' (JStr ''hi''), turn ''assistant'' (JStr ''Hello world'')]"
    by auto
  then show ?thesis
    using h1 h2 h3 h4 h5 two by blast
qed

section \<open>The decoder has fuel enough\<close>

lemma emit_Inr: "emit pre r = Inr (s, rest) \<longleftrightarrow> (\<exists>s'. r = Inr (s', rest) \<and> s = pre @ s')"
  by (cases r) (auto simp add: emit_def)

lemma emit_fuel: "emit pre r = Inl Out_of_fuel \<longleftrightarrow> r = Inl Out_of_fuel"
  by (cases r) (auto simp add: emit_def)

lemma scanstring_fuel: "scanstring s \<noteq> Inl Out_of_fuel"
proof (induction s rule: scanstring.induct)
  case 1
  show ?case by simp
next
  case (2 c cs)
  show ?case
  proof (cases "c = CHR 0x22")
    case True
    then show ?thesis by simp
  next
    case quote: False
    show ?thesis
    proof (cases "c = CHR 0x5C")
      case False
      then show ?thesis
        using quote "2.IH"(3) by (simp add: emit_fuel)
    next
      case True
      show ?thesis
      proof (cases cs)
        case Nil
        then show ?thesis using True by simp
      next
        case (Cons e cs1)
        show ?thesis
        proof (cases "e = CHR ''u''")
          case False
          then show ?thesis
            using True Cons "2.IH"(2) [OF quote True Cons False]
            by (simp add: emit_fuel split: option.splits)
        next
          case u: True
          show ?thesis
          proof (cases "\<exists>h1 h2 h3 h4 cs2. cs1 = h1 # h2 # h3 # h4 # cs2")
            case False
            then show ?thesis
              using True Cons u by (simp split: list.splits)
          next
            case True
            then obtain h1 h2 h3 h4 cs2 where cs1: "cs1 = h1 # h2 # h3 # h4 # cs2"
              by blast
            show ?thesis
              using \<open>c = CHR 0x5C\<close> Cons u cs1 "2.IH"(1) [OF quote \<open>c = CHR 0x5C\<close> Cons u cs1]
              by (simp add: emit_fuel split: option.splits)
          qed
        qed
      qed
    qed
  qed
qed

lemma scanstring_length: "scanstring s = Inr (str, rest) \<Longrightarrow> length rest < length s"
proof (induction s arbitrary: str rule: scanstring.induct)
  case 1
  then show ?case by simp
next
  case (2 c cs)
  show ?case
  proof (cases "c = CHR 0x22")
    case True
    then show ?thesis using "2.prems" by simp
  next
    case quote: False
    show ?thesis
    proof (cases "c = CHR 0x5C")
      case False
      then obtain s' where "scanstring cs = Inr (s', rest)"
        using quote "2.prems" by (auto simp add: emit_Inr split: if_splits)
      then have "length rest < length cs"
        using "2.IH"(3) quote False "2.prems" by (auto split: if_splits)
      then show ?thesis by simp
    next
      case True
      show ?thesis
      proof (cases cs)
        case Nil
        then show ?thesis using True "2.prems" by simp
      next
        case (Cons e cs1)
        show ?thesis
        proof (cases "e = CHR ''u''")
          case False
          then obtain s' ch where "unescape e = Some ch" and "scanstring cs1 = Inr (s', rest)"
            using True Cons "2.prems" by (auto simp add: emit_Inr split: option.splits)
          then have "length rest < length cs1"
            using "2.IH"(2) [OF quote True Cons False] by blast
          then show ?thesis using Cons by simp
        next
          case u: True
          show ?thesis
          proof (cases "\<exists>h1 h2 h3 h4 cs2. cs1 = h1 # h2 # h3 # h4 # cs2")
            case False
            then show ?thesis
              using True Cons u "2.prems" by (simp split: list.splits)
          next
            case True
            then obtain h1 h2 h3 h4 cs2 where cs1: "cs1 = h1 # h2 # h3 # h4 # cs2"
              by blast
            obtain s' uni where "hex4 h1 h2 h3 h4 = Some uni"
              and "\<not> (0xD800 \<le> uni \<and> uni \<le> 0xDFFF)"
              and "scanstring cs2 = Inr (s', rest)"
              using \<open>c = CHR 0x5C\<close> Cons u cs1 "2.prems"
              by (auto simp add: emit_Inr split: option.splits if_splits)
            then have "length rest < length cs2"
              using "2.IH"(1) [OF quote \<open>c = CHR 0x5C\<close> Cons u cs1] by blast
            then show ?thesis using Cons cs1 by simp
          qed
        qed
      qed
    qed
  qed
qed

lemma skip_ws_length: "length (skip_ws s) \<le> length s"
  by (induction s) auto

lemma skip_ws_Cons_length: "skip_ws s = d # ds \<Longrightarrow> length ds < length s"
  using skip_ws_length [of s] by simp

lemma drop_keyword_length:
  assumes "take k s = t" and "t \<noteq> []"
  shows "length (drop k s) < length s"
proof -
  have "min k (length s) = length t"
    using assms(1) by (metis length_take min.commute)
  then have "0 < k" and "0 < length s"
    using assms(2) by (cases k; cases s; simp)+
  then show ?thesis by simp
qed

text \<open>The scanner at a value, by its first character.\<close>

lemma parse_value_brace:
  "parse_value (Suc n) room (CHR ''{'' # cs) =
     (case room of
        0 \<Rightarrow> Inl (Raises RecursionError)
      | Suc k \<Rightarrow>
          (case skip_ws cs of
             [] \<Rightarrow> Inl (Raises JSONDecodeError)
           | d # ds \<Rightarrow>
               if d = CHR ''}'' then Inr (JObj [], ds)
               else if d = CHR 0x22 then parse_members n k [] (d # ds)
               else Inl (Raises JSONDecodeError)))"
  by (simp only: parse_value.simps list.case) simp

lemma parse_value_bracket:
  "parse_value (Suc n) room (CHR ''['' # cs) =
     (case room of
        0 \<Rightarrow> Inl (Raises RecursionError)
      | Suc k \<Rightarrow>
          (case skip_ws cs of
             [] \<Rightarrow> Inl (Raises JSONDecodeError)
           | d # ds \<Rightarrow>
               if d = CHR '']'' then Inr (JArr [], ds)
               else parse_elements n k [] (d # ds)))"
  by (simp only: parse_value.simps list.case) simp

lemma parse_value_word:
  assumes "c \<noteq> CHR 0x22" and "c \<noteq> CHR ''{''" and "c \<noteq> CHR ''[''"
  shows "parse_value (Suc n) room (c # cs) =
           (if take 4 (c # cs) = ''null'' then Inr (JNull, drop 4 (c # cs))
            else if take 4 (c # cs) = ''true'' then Inr (JBool True, drop 4 (c # cs))
            else if take 5 (c # cs) = ''false'' then Inr (JBool False, drop 5 (c # cs))
            else if starts_number c then Inl Not_modelled
            else Inl (Raises JSONDecodeError))"
  by (simp only: parse_value.simps list.case assms if_False)

lemma parse_value_step_length:
  assumes ihe: "\<And>k acc s v r. parse_elements n k acc s = Inr (v, r) \<Longrightarrow> length r < length s"
    and ihm: "\<And>k acc s v r. parse_members n k acc s = Inr (v, r) \<Longrightarrow> length r < length s"
    and res: "parse_value (Suc n) room s = Inr (v, r)"
  shows "length r < length s"
proof (cases s)
  case Nil
  then show ?thesis using res by simp
next
  case (Cons c cs)
  show ?thesis
  proof (cases "c = CHR 0x22")
    case True
    then obtain str where "scanstring cs = Inr (str, r)"
      using res Cons by (auto split: sum.splits)
    then show ?thesis
      using scanstring_length [of cs str r] Cons by simp
  next
    case quote: False
    show ?thesis
    proof (cases "c = CHR ''{''")
      case True
      have res': "parse_value (Suc n) room (CHR ''{'' # cs) = Inr (v, r)"
        using res Cons True by simp
      obtain k where room: "room = Suc k"
        using res' by (cases room) (simp_all only: parse_value_brace nat.case sum.distinct)
      obtain d ds where sk: "skip_ws cs = d # ds"
        using res' room
        by (cases "skip_ws cs") (simp_all only: parse_value_brace nat.case list.case sum.distinct)
      have ds: "length ds < length cs"
        using sk by (rule skip_ws_Cons_length)
      have "r = ds \<or> parse_members n k [] (d # ds) = Inr (v, r)"
        using res' unfolding parse_value_brace room sk
        by (simp split: if_splits del: parse_members.simps)
      then show ?thesis
        using ds ihm [of k "[]" "d # ds" v r] Cons by auto
    next
      case brace: False
      show ?thesis
      proof (cases "c = CHR ''[''")
        case True
        have res': "parse_value (Suc n) room (CHR ''['' # cs) = Inr (v, r)"
          using res Cons True by simp
        obtain k where room: "room = Suc k"
          using res' by (cases room) (simp_all only: parse_value_bracket nat.case sum.distinct)
        obtain d ds where sk: "skip_ws cs = d # ds"
          using res' room
          by (cases "skip_ws cs")
            (simp_all only: parse_value_bracket nat.case list.case sum.distinct)
        have ds: "length ds < length cs"
          using sk by (rule skip_ws_Cons_length)
        have "r = ds \<or> parse_elements n k [] (d # ds) = Inr (v, r)"
          using res' unfolding parse_value_bracket room sk
          by (simp split: if_splits del: parse_elements.simps)
        then show ?thesis
          using ds ihe [of k "[]" "d # ds" v r] Cons by auto
      next
        case False
        have "parse_value (Suc n) room (c # cs) =
                (if take 4 (c # cs) = ''null'' then Inr (JNull, drop 4 (c # cs))
                 else if take 4 (c # cs) = ''true'' then Inr (JBool True, drop 4 (c # cs))
                 else if take 5 (c # cs) = ''false'' then Inr (JBool False, drop 5 (c # cs))
                 else if starts_number c then Inl Not_modelled
                 else Inl (Raises JSONDecodeError))"
          using quote brace False by (rule parse_value_word)
        then have "(take 4 s = ''null'' \<and> r = drop 4 s) \<or> (take 4 s = ''true'' \<and> r = drop 4 s)
              \<or> (take 5 s = ''false'' \<and> r = drop 5 s)"
          using res unfolding Cons [symmetric]
          by (simp only: split: if_splits) auto
        then show ?thesis
          using drop_keyword_length [of 4 s "''null''"] drop_keyword_length [of 4 s "''true''"]
            drop_keyword_length [of 5 s "''false''"]
          by auto
      qed
    qed
  qed
qed

lemma parse_elements_step_length:
  assumes ihv: "\<And>s v r. parse_value n room s = Inr (v, r) \<Longrightarrow> length r < length s"
    and ihe: "\<And>acc s v r. parse_elements n room acc s = Inr (v, r) \<Longrightarrow> length r < length s"
    and res: "parse_elements (Suc n) room acc s = Inr (v, r)"
  shows "length r < length s"
proof -
  obtain v1 rest where pv: "parse_value n room s = Inr (v1, rest)"
    using res by (cases "parse_value n room s") auto
  obtain d ds where sk: "skip_ws rest = d # ds"
    using res pv by (cases "skip_ws rest") auto
  have rest: "length rest < length s"
    using pv by (rule ihv)
  have ds: "length ds < length rest"
    using sk by (rule skip_ws_Cons_length)
  have "r = ds \<or> parse_elements n room (acc @ [v1]) (skip_ws ds) = Inr (v, r)"
    using res pv sk by (auto split: if_splits)
  then show ?thesis
    using rest ds ihe [of "acc @ [v1]" "skip_ws ds" v r] skip_ws_length [of ds] by auto
qed

lemma parse_members_step_length:
  assumes ihv: "\<And>s v r. parse_value n room s = Inr (v, r) \<Longrightarrow> length r < length s"
    and ihm: "\<And>acc s v r. parse_members n room acc s = Inr (v, r) \<Longrightarrow> length r < length s"
    and res: "parse_members (Suc n) room acc s = Inr (v, r)"
  shows "length r < length s"
proof -
  obtain cs where s: "s = CHR 0x22 # cs"
    using res by (cases s) (auto split: if_splits)
  obtain key rest where sc: "scanstring cs = Inr (key, rest)"
    using res s by (cases "scanstring cs") auto
  obtain r1 where colon: "skip_ws rest = CHR '':'' # r1"
    using res s sc by (cases "skip_ws rest") (auto split: if_splits)
  obtain v1 rest2 where pv: "parse_value n room (skip_ws r1) = Inr (v1, rest2)"
    using res s sc colon by (cases "parse_value n room (skip_ws r1)") auto
  obtain d ds where sk: "skip_ws rest2 = d # ds"
    using res s sc colon pv by (cases "skip_ws rest2") auto
  have "length rest < length cs"
    using sc by (rule scanstring_length)
  moreover have "length r1 < length rest"
    using colon by (rule skip_ws_Cons_length)
  moreover have "length rest2 < length (skip_ws r1)"
    using pv by (rule ihv)
  moreover have "length ds < length rest2"
    using sk by (rule skip_ws_Cons_length)
  moreover have "r = ds \<or> parse_members n room (AList.update key v1 acc) (skip_ws ds) = Inr (v, r)"
    using res s sc colon pv sk by (auto split: if_splits)
  ultimately show ?thesis
    using ihm [of "AList.update key v1 acc" "skip_ws ds" v r] skip_ws_length [of ds]
      skip_ws_length [of r1] s
    by auto
qed

lemma parse_length:
  "(\<forall>room s v r. parse_value n room s = Inr (v, r) \<longrightarrow> length r < length s)
   \<and> (\<forall>room acc s v r. parse_elements n room acc s = Inr (v, r) \<longrightarrow> length r < length s)
   \<and> (\<forall>room acc s v r. parse_members n room acc s = Inr (v, r) \<longrightarrow> length r < length s)"
proof (induction n)
  case 0
  show ?case by simp
next
  case (Suc n)
  have ihv: "\<And>room s v r. parse_value n room s = Inr (v, r) \<Longrightarrow> length r < length s"
    and ihe: "\<And>room acc s v r. parse_elements n room acc s = Inr (v, r) \<Longrightarrow> length r < length s"
    and ihm: "\<And>room acc s v r. parse_members n room acc s = Inr (v, r) \<Longrightarrow> length r < length s"
    using Suc.IH by blast+
  show ?case
  proof (intro conjI allI impI)
    fix room s v r
    assume res: "parse_value (Suc n) room s = Inr (v, r)"
    show "length r < length s"
      by (rule parse_value_step_length [where n = n, OF _ _ res])
        (rule ihe, assumption, rule ihm, assumption)
  next
    fix room acc s v r
    assume res: "parse_elements (Suc n) room acc s = Inr (v, r)"
    show "length r < length s"
      by (rule parse_elements_step_length [where n = n, OF _ _ res])
        (rule ihv, assumption, rule ihe, assumption)
  next
    fix room acc s v r
    assume res: "parse_members (Suc n) room acc s = Inr (v, r)"
    show "length r < length s"
      by (rule parse_members_step_length [where n = n, OF _ _ res])
        (rule ihv, assumption, rule ihm, assumption)
  qed
qed

lemma parse_value_length: "parse_value n room s = Inr (v, r) \<Longrightarrow> length r < length s"
  using parse_length [of n] by blast

text \<open>The fuel a call needs, by the length of the text before it.\<close>

lemma parse_value_step_fuel:
  assumes ihe: "\<And>k acc s. 2 * length s + 2 \<le> n \<Longrightarrow> parse_elements n k acc s \<noteq> Inl Out_of_fuel"
    and ihm: "\<And>k acc s. 2 * length s + 2 \<le> n \<Longrightarrow> parse_members n k acc s \<noteq> Inl Out_of_fuel"
    and fuel: "2 * length s + 1 \<le> Suc n"
  shows "parse_value (Suc n) room s \<noteq> Inl Out_of_fuel"
proof (cases s)
  case Nil
  then show ?thesis by simp
next
  case (Cons c cs)
  have inner: "2 * length (d # ds) + 2 \<le> n" if "skip_ws cs = d # ds" for d ds
    using skip_ws_Cons_length [OF that] fuel Cons by simp
  consider "c = CHR 0x22" | "c = CHR ''{''" | "c = CHR ''[''"
    | "c \<noteq> CHR 0x22" "c \<noteq> CHR ''{''" "c \<noteq> CHR ''[''"
    by blast
  then show ?thesis
  proof cases
    case 1
    then show ?thesis
      using scanstring_fuel [of cs] Cons by (auto split: sum.splits)
  next
    case 2
    show ?thesis
    proof (cases room)
      case 0
      then show ?thesis unfolding Cons 2 parse_value_brace by simp
    next
      case (Suc k)
      show ?thesis
      proof (cases "skip_ws cs")
        case Nil
        then show ?thesis unfolding Cons 2 parse_value_brace Suc by simp
      next
        case (Cons d ds)
        then show ?thesis
          using ihm [OF inner [OF Cons], of k "[]"]
          unfolding \<open>s = c # cs\<close> 2 parse_value_brace Suc
          by (auto simp del: parse_members.simps)
      qed
    qed
  next
    case 3
    show ?thesis
    proof (cases room)
      case 0
      then show ?thesis unfolding Cons 3 parse_value_bracket by simp
    next
      case (Suc k)
      show ?thesis
      proof (cases "skip_ws cs")
        case Nil
        then show ?thesis unfolding Cons 3 parse_value_bracket Suc by simp
      next
        case (Cons d ds)
        then show ?thesis
          using ihe [OF inner [OF Cons], of k "[]"]
          unfolding \<open>s = c # cs\<close> 3 parse_value_bracket Suc
          by (simp del: parse_elements.simps)
      qed
    qed
  next
    case 4
    then have "parse_value (Suc n) room (c # cs) =
                (if take 4 (c # cs) = ''null'' then Inr (JNull, drop 4 (c # cs))
                 else if take 4 (c # cs) = ''true'' then Inr (JBool True, drop 4 (c # cs))
                 else if take 5 (c # cs) = ''false'' then Inr (JBool False, drop 5 (c # cs))
                 else if starts_number c then Inl Not_modelled
                 else Inl (Raises JSONDecodeError))"
      by (rule parse_value_word)
    then show ?thesis
      unfolding Cons by (simp only: split: if_splits) auto
  qed
qed

lemma parse_elements_step_fuel:
  assumes ihv: "\<And>s. 2 * length s + 1 \<le> n \<Longrightarrow> parse_value n room s \<noteq> Inl Out_of_fuel"
    and ihe: "\<And>acc s. 2 * length s + 2 \<le> n \<Longrightarrow> parse_elements n room acc s \<noteq> Inl Out_of_fuel"
    and fuel: "2 * length s + 2 \<le> Suc n"
  shows "parse_elements (Suc n) room acc s \<noteq> Inl Out_of_fuel"
proof (cases "parse_value n room s")
  case (Inl e)
  moreover have "parse_value n room s \<noteq> Inl Out_of_fuel"
    using fuel by (intro ihv) simp
  ultimately show ?thesis by auto
next
  case (Inr p)
  obtain v1 rest where p: "p = (v1, rest)"
    by (cases p)
  have rest: "length rest < length s"
    using Inr p by (auto dest: parse_value_length)
  show ?thesis
  proof (cases "skip_ws rest")
    case Nil
    then show ?thesis using Inr p by simp
  next
    case (Cons d ds)
    have "length ds < length rest"
      using Cons by (rule skip_ws_Cons_length)
    then have "2 * length (skip_ws ds) + 2 \<le> n"
      using rest fuel skip_ws_length [of ds] by simp
    then have "parse_elements n room (acc @ [v1]) (skip_ws ds) \<noteq> Inl Out_of_fuel"
      by (rule ihe)
    then show ?thesis
      using Inr p Cons by auto
  qed
qed

lemma parse_members_step_fuel:
  assumes ihv: "\<And>s. 2 * length s + 1 \<le> n \<Longrightarrow> parse_value n room s \<noteq> Inl Out_of_fuel"
    and ihm: "\<And>acc s. 2 * length s + 2 \<le> n \<Longrightarrow> parse_members n room acc s \<noteq> Inl Out_of_fuel"
    and fuel: "2 * length s + 2 \<le> Suc n"
  shows "parse_members (Suc n) room acc s \<noteq> Inl Out_of_fuel"
proof (cases "\<exists>cs key rest r1. s = CHR 0x22 # cs \<and> scanstring cs = Inr (key, rest)
                \<and> skip_ws rest = CHR '':'' # r1")
  case False
  then show ?thesis
    using scanstring_fuel
    by (auto split: list.splits sum.splits prod.splits)
next
  case True
  then obtain cs key rest r1 where s: "s = CHR 0x22 # cs"
    and sc: "scanstring cs = Inr (key, rest)"
    and colon: "skip_ws rest = CHR '':'' # r1"
    by blast
  have rest: "length rest < length cs"
    using sc by (rule scanstring_length)
  have r1: "length r1 < length rest"
    using colon by (rule skip_ws_Cons_length)
  have inner: "length (skip_ws r1) < length s"
    using rest r1 skip_ws_length [of r1] s by simp
  show ?thesis
  proof (cases "parse_value n room (skip_ws r1)")
    case (Inl e)
    moreover have "parse_value n room (skip_ws r1) \<noteq> Inl Out_of_fuel"
      using fuel inner by (intro ihv) simp
    ultimately show ?thesis
      using s sc colon by auto
  next
    case (Inr p)
    obtain v1 rest2 where p: "p = (v1, rest2)"
      by (cases p)
    have rest2: "length rest2 < length (skip_ws r1)"
      using Inr p by (auto dest: parse_value_length)
    show ?thesis
    proof (cases "skip_ws rest2")
      case Nil
      then show ?thesis using Inr p s sc colon by simp
    next
      case (Cons d ds)
      have "length ds < length rest2"
        using Cons by (rule skip_ws_Cons_length)
      then have "2 * length (skip_ws ds) + 2 \<le> n"
        using rest2 inner fuel skip_ws_length [of ds] by simp
      then have "parse_members n room (AList.update key v1 acc) (skip_ws ds) \<noteq> Inl Out_of_fuel"
        by (rule ihm)
      then show ?thesis
        using Inr p Cons s sc colon by auto
    qed
  qed
qed

lemma parse_fuel:
  "(\<forall>room s. 2 * length s + 1 \<le> n \<longrightarrow> parse_value n room s \<noteq> Inl Out_of_fuel)
   \<and> (\<forall>room acc s. 2 * length s + 2 \<le> n \<longrightarrow> parse_elements n room acc s \<noteq> Inl Out_of_fuel)
   \<and> (\<forall>room acc s. 2 * length s + 2 \<le> n \<longrightarrow> parse_members n room acc s \<noteq> Inl Out_of_fuel)"
proof (induction n)
  case 0
  show ?case by simp
next
  case (Suc n)
  have ihv: "\<And>room s. 2 * length s + 1 \<le> n \<Longrightarrow> parse_value n room s \<noteq> Inl Out_of_fuel"
    and ihe: "\<And>room acc s. 2 * length s + 2 \<le> n \<Longrightarrow> parse_elements n room acc s \<noteq> Inl Out_of_fuel"
    and ihm: "\<And>room acc s. 2 * length s + 2 \<le> n \<Longrightarrow> parse_members n room acc s \<noteq> Inl Out_of_fuel"
    using Suc.IH by blast+
  show ?case
  proof (intro conjI allI impI)
    fix room and s :: string
    assume fuel: "2 * length s + 1 \<le> Suc n"
    show "parse_value (Suc n) room s \<noteq> Inl Out_of_fuel"
      by (rule parse_value_step_fuel [where n = n, OF _ _ fuel])
        (rule ihe, assumption, rule ihm, assumption)
  next
    fix room acc and s :: string
    assume fuel: "2 * length s + 2 \<le> Suc n"
    show "parse_elements (Suc n) room acc s \<noteq> Inl Out_of_fuel"
      by (rule parse_elements_step_fuel [where n = n, OF _ _ fuel])
        (rule ihv, assumption, rule ihe, assumption)
  next
    fix room acc and s :: string
    assume fuel: "2 * length s + 2 \<le> Suc n"
    show "parse_members (Suc n) room acc s \<noteq> Inl Out_of_fuel"
      by (rule parse_members_step_fuel [where n = n, OF _ _ fuel])
        (rule ihv, assumption, rule ihm, assumption)
  qed
qed

lemma json_loads_fuel: "json_loads room s \<noteq> Inl Out_of_fuel"
proof -
  have "2 * length (skip_ws s) + 1 \<le> 2 * length s + 2"
    using skip_ws_length [of s] by simp
  then have "parse_value (2 * length s + 2) room (skip_ws s) \<noteq> Inl Out_of_fuel"
    using parse_fuel [of "2 * length s + 2"] by blast
  then show ?thesis
    by (auto simp add: json_loads_def split: sum.splits)
qed

lemma load_conversation_fuel: "load_conversation room filename b fs \<noteq> Inl Out_of_fuel"
  using json_loads_fuel
  by (auto simp add: load_conversation_def split: option.splits sum.splits)

section \<open>What the encoder writes can be encoded\<close>

lemma utf8_valid_append:
  "utf8_valid a \<Longrightarrow> utf8_valid (a @ b) = utf8_valid b"
proof (induction a rule: utf8_valid.induct)
  case 1
  show ?case by simp
next
  case (2 c s)
  show ?case
  proof (cases "(of_char c :: nat) < 0x80")
    case True
    then show ?thesis
      using "2.prems" "2.IH"(1) by simp
  next
    case False
    then obtain k lo hi where l: "lead (of_char c) = Some (k, lo, hi)"
      and k: "k \<le> length s" and c: "continues lo hi (take k s)" and v: "utf8_valid (drop k s)"
      using "2.prems" by (auto split: option.splits)
    have "utf8_valid (drop k s @ b) = utf8_valid b"
      using "2.IH"(2) False l v by simp
    then show ?thesis
      using False l k c by simp
  qed
qed

lemma utf8_valid_concat: "list_all utf8_valid cs \<Longrightarrow> utf8_valid (concat cs)"
  by (induction cs) (simp_all add: utf8_valid_append)

lemma utf8_valid_ascii:
  "list_all (\<lambda>c. (of_char c :: nat) < 0x80) a \<Longrightarrow> utf8_valid a"
  by (induction a) simp_all

lemma escape_char_ascii:
  "(of_char c :: nat) < 0x80 \<Longrightarrow> list_all (\<lambda>c. (of_char c :: nat) < 0x80) (escape_char c)"
proof -
  have "list_all (\<lambda>d. (of_char (hexdigit d) :: nat) < 0x80) [0..<16]"
    by code_simp
  then have hex: "(of_char (hexdigit d) :: nat) < 0x80" if "d < 16" for d
    using that by (simp add: list_all_iff)
  assume "(of_char c :: nat) < 0x80"
  then show ?thesis
    using hex [of "of_char c div 16"] hex [of "of_char c mod 16"]
    by (auto simp add: escape_char_def)
qed

lemma high_not_special:
  assumes "\<not> (of_char c :: nat) < 0x80"
  shows "c \<noteq> CHR 0x22" "c \<noteq> CHR 0x5C" "c \<noteq> CHR 0x0A" "c \<noteq> CHR 0x0D" "c \<noteq> CHR 0x09"
    "c \<noteq> CHR 0x08" "c \<noteq> CHR 0x0C" "\<not> (of_char c :: nat) < 0x20"
  using assms by auto

lemma escape_char_high:
  assumes "\<not> (of_char c :: nat) < 0x80"
  shows "escape_char c = [c]"
  unfolding escape_char_def by (simp only: high_not_special [OF assms] if_False)

lemma escaped_high:
  "list_all (\<lambda>c. \<not> (of_char c :: nat) < 0x80) bs \<Longrightarrow> concat (map escape_char bs) = bs"
  by (induction bs) (simp_all add: escape_char_high)

lemma continues_high:
  "continues lo hi bs \<Longrightarrow> 0x80 \<le> lo \<Longrightarrow> list_all (\<lambda>c. \<not> (of_char c :: nat) < 0x80) bs"
  by (cases bs) (auto simp add: continues_def list_all_iff)

lemma lead_low: "lead n = Some (k, lo, hi) \<Longrightarrow> 0x80 \<le> lo"
  by (auto simp add: lead_def split: if_splits)

lemma utf8_valid_escaped: "utf8_valid s \<Longrightarrow> utf8_valid (concat (map escape_char s))"
proof (induction s rule: utf8_valid.induct)
  case 1
  show ?case by simp
next
  case (2 c s)
  show ?case
  proof (cases "(of_char c :: nat) < 0x80")
    case True
    then have "utf8_valid (concat (map escape_char s))"
      using "2.prems" "2.IH"(1) by simp
    moreover have "utf8_valid (escape_char c)"
      using True by (intro utf8_valid_ascii escape_char_ascii)
    ultimately show ?thesis
      by (simp add: utf8_valid_append)
  next
    case False
    then obtain k lo hi where l: "lead (of_char c) = Some (k, lo, hi)"
      and k: "k \<le> length s" and c: "continues lo hi (take k s)" and v: "utf8_valid (drop k s)"
      using "2.prems" by (auto split: option.splits)
    have rest: "utf8_valid (concat (map escape_char (drop k s)))"
      using "2.IH"(2) False l v by simp
    have "concat (map escape_char (take k s)) = take k s"
      using continues_high [OF c lead_low [OF l]] by (rule escaped_high)
    then have "concat (map escape_char (c # s))
                 = c # take k s @ concat (map escape_char (drop k s))"
      using False
      by (metis append_Cons append_Nil append_take_drop_id concat.simps(2) concat_append
          escape_char_high list.simps(9) map_append)
    moreover have "utf8_valid (c # take k s @ concat (map escape_char (drop k s)))"
      using False l k c rest by (simp add: min_absorb2)
    ultimately show ?thesis
      by simp
  qed
qed

lemma utf8_valid_encode_basestring: "utf8_valid s \<Longrightarrow> utf8_valid (encode_basestring s)"
proof -
  assume "utf8_valid s"
  then have "utf8_valid (concat (map escape_char s))"
    by (rule utf8_valid_escaped)
  then have "utf8_valid (concat (map escape_char s) @ [CHR 0x22])"
    by (simp add: utf8_valid_append)
  then show ?thesis
    by (simp add: encode_basestring_def)
qed

lemma utf8_valid_newline_indent: "utf8_valid (newline_indent level @ rest) = utf8_valid rest"
proof -
  have "utf8_valid (replicate n CHR '' '' @ rest) = utf8_valid rest" for n
    by (induction n) simp_all
  then show ?thesis
    by (simp add: newline_indent_def)
qed

section \<open>The history survives a save and a load\<close>

lemma hexval_hexdigits: "list_all (\<lambda>d. hexval (hexdigit d) = Some d) [0..<16]"
  by code_simp

lemma hexval_hexdigit: "d < 16 \<Longrightarrow> hexval (hexdigit d) = Some d"
  using hexval_hexdigits by (simp add: list_all_iff)

lemma hex4_control:
  assumes "n < 32"
  shows "hex4 CHR ''0'' CHR ''0'' (hexdigit (n div 16)) (hexdigit (n mod 16)) = Some n"
proof -
  have z: "hexval CHR ''0'' = Some 0"
    by (simp add: hexval_def)
  have "n div 16 < 16" and "n mod 16 < 16"
    using assms by auto
  then have "hexval (hexdigit (n div 16)) = Some (n div 16)"
    and "hexval (hexdigit (n mod 16)) = Some (n mod 16)"
    by (simp_all add: hexval_hexdigit)
  then show ?thesis
    by (simp add: hex4_def z)
qed

lemma scanstring_control:
  assumes "(of_char c :: nat) < 32"
  shows "scanstring
           (CHR 0x5C # CHR ''u'' # CHR ''0'' # CHR ''0'' # hexdigit (of_char c div 16)
              # hexdigit (of_char c mod 16) # rest)
         = emit [c] (scanstring rest)"
proof -
  have "utf8 (of_char c) = [c]"
    using assms by (simp add: utf8_def)
  then show ?thesis
    using assms hex4_control [OF assms] by simp
qed

lemma scanstring_plain:
  assumes "c \<noteq> CHR 0x22" and "c \<noteq> CHR 0x5C" and "\<not> (of_char c :: nat) < 32"
  shows "scanstring (c # rest) = emit [c] (scanstring rest)"
  using assms by simp

lemma scanstring_escape_char: "scanstring (escape_char c @ rest) = emit [c] (scanstring rest)"
proof (cases "c = CHR 0x22 \<or> c = CHR 0x5C \<or> c = CHR 0x0A \<or> c = CHR 0x0D \<or> c = CHR 0x09
                \<or> c = CHR 0x08 \<or> c = CHR 0x0C")
  case True
  then show ?thesis
    by (elim disjE) (simp_all add: escape_char_def unescape_def)
next
  case special: False
  show ?thesis
  proof (cases "(of_char c :: nat) < 32")
    case True
    then have "escape_char c =
                 [CHR 0x5C, CHR ''u'', CHR ''0'', CHR ''0'', hexdigit (of_char c div 16),
                  hexdigit (of_char c mod 16)]"
      using special by (simp add: escape_char_def)
    then show ?thesis
      using scanstring_control [OF True, of rest] by simp
  next
    case False
    then have "escape_char c = [c]"
      using special by (simp add: escape_char_def)
    then show ?thesis
      using scanstring_plain [of c rest] special False by simp
  qed
qed

lemma scanstring_escaped:
  "scanstring (concat (map escape_char s) @ CHR 0x22 # rest) = Inr (s, rest)"
proof (induction s)
  case Nil
  show ?case by simp
next
  case (Cons c s)
  have "scanstring (concat (map escape_char (c # s)) @ CHR 0x22 # rest)
          = scanstring (escape_char c @ (concat (map escape_char s) @ CHR 0x22 # rest))"
    by simp
  also have "\<dots> = emit [c] (scanstring (concat (map escape_char s) @ CHR 0x22 # rest))"
    by (rule scanstring_escape_char)
  also have "\<dots> = Inr (c # s, rest)"
    by (simp add: Cons.IH emit_def)
  finally show ?case .
qed

lemma parse_value_string:
  "parse_value (Suc n) room (CHR 0x22 # concat (map escape_char s) @ CHR 0x22 # rest)
     = Inr (JStr s, rest)"
  by (simp add: scanstring_escaped)

lemma skip_ws_spaces:
  assumes "c \<noteq> CHR '' ''" and "c \<noteq> CHR 0x09" and "c \<noteq> CHR 0x0A" and "c \<noteq> CHR 0x0D"
  shows "skip_ws (replicate k CHR '' '' @ c # rest) = c # rest"
  using assms by (induction k) simp_all

lemma skip_ws_newline_indent:
  assumes "c \<noteq> CHR '' ''" and "c \<noteq> CHR 0x09" and "c \<noteq> CHR 0x0A" and "c \<noteq> CHR 0x0D"
  shows "skip_ws (newline_indent level @ c # rest) = c # rest"
  using skip_ws_spaces [OF assms] by (simp add: newline_indent_def)

text \<open>One member with a string value, followed by a further member or by the end.\<close>

lemma parse_members_more:
  "parse_members (Suc (Suc n)) room acc
     (encode_basestring key @ '': '' @ encode_basestring val
        @ CHR '','' # newline_indent level @ CHR 0x22 # t)
   = parse_members (Suc n) room (AList.update key (JStr val) acc) (CHR 0x22 # t)"
  by (subst parse_members.simps)
    (simp add: encode_basestring_def scanstring_escaped parse_value_string
      skip_ws_newline_indent del: parse_value.simps parse_members.simps)

lemma parse_members_last:
  "parse_members (Suc (Suc n)) room acc
     (encode_basestring key @ '': '' @ encode_basestring val
        @ newline_indent level @ CHR ''}'' # rest)
   = Inr (JObj (AList.update key (JStr val) acc), rest)"
  by (subst parse_members.simps)
    (simp add: encode_basestring_def scanstring_escaped parse_value_string
      skip_ws_newline_indent del: parse_value.simps parse_members.simps)

lemma parse_value_object:
  "parse_value (Suc n) (Suc k) (CHR ''{'' # newline_indent level @ CHR 0x22 # t)
     = parse_members n k [] (CHR 0x22 # t)"
  by (simp add: parse_value_brace skip_ws_newline_indent
      del: parse_value.simps parse_members.simps)

text \<open>The chunks of a history of turns, and the text they make.\<close>

lemma atom_turn: "atom (turn role content) = None"
  by (simp add: turn_def)

lemma iterencode_turn:
  "iterencode (Suc k) (Suc 0) (turn role (JStr content)) = yield (turn_chunks role content)"
  by (simp add: turn_def turn_chunks_def then_chunks_def yield_def)

lemma iterencode_list_turns:
  "iterencode_list (Suc k) (Suc 0) buf (map (\<lambda>(role, content). turn role (JStr content)) turns)
     = yield (turns_chunks buf turns)"
proof (induction turns arbitrary: buf)
  case Nil
  show ?case by simp
next
  case (Cons t turns)
  obtain role content where t: "t = (role, content)"
    by (cases t)
  show ?case
    by (simp add: t atom_turn iterencode_turn Cons.IH then_chunks_def yield_def)
qed

lemma iterencode_history:
  "iterencode (Suc (Suc k)) 0 (history_of turns) =
     yield (if turns = [] then [''[]'']
            else turns_chunks (CHR ''['' # newline_indent (Suc 0)) turns
                   @ [newline_indent 0, '']''])"
  by (simp add: history_of_def iterencode_list_turns then_chunks_def yield_def)

lemma concat_turn_chunks: "concat (turn_chunks role content) = turn_text role content"
  by (simp add: turn_chunks_def turn_text_def bracket_def)

lemma concat_turns_chunks:
  "turns \<noteq> [] \<Longrightarrow>
     concat (turns_chunks buf turns)
       = buf @ join (CHR '','' # newline_indent (Suc 0)) (turn_texts turns)"
proof (induction turns arbitrary: buf rule: list_nonempty_induct)
  case (single t)
  show ?case
    by (simp add: concat_turn_chunks turn_texts_def split: prod.splits)
next
  case (cons t turns)
  obtain u us where turns: "turns = u # us"
    using cons.hyps by (cases turns) auto
  have "concat (turns_chunks buf (t # turns))
          = buf @ turn_text (fst t) (snd t)
              @ concat (turns_chunks (CHR '','' # newline_indent (Suc 0)) turns)"
    by (simp add: concat_turn_chunks)
  also have "\<dots> = buf @ turn_text (fst t) (snd t) @ (CHR '','' # newline_indent (Suc 0))
                      @ join (CHR '','' # newline_indent (Suc 0)) (turn_texts turns)"
    by (simp only: cons.IH)
  also have "\<dots> = buf @ join (CHR '','' # newline_indent (Suc 0)) (turn_texts (t # turns))"
    by (simp add: turns turn_texts_def split: prod.splits)
  finally show ?case .
qed

lemma concat_history_chunks:
  "concat (if turns = [] then [''[]'']
           else turns_chunks (CHR ''['' # newline_indent (Suc 0)) turns
                  @ [newline_indent 0, '']''])
     = history_text turns"
  by (simp add: history_text_def bracket_def concat_turns_chunks)

lemma utf8_valid_indent: "utf8_valid (newline_indent level)"
  using utf8_valid_newline_indent [of level "[]"] by simp

lemma valid_turn_chunks:
  assumes "utf8_valid role" and "utf8_valid content"
  shows "list_all utf8_valid (turn_chunks role content)"
proof -
  have "utf8_valid ''role''" and "utf8_valid ''content''"
    by simp_all
  then have "utf8_valid (encode_basestring ''role'')"
    and "utf8_valid (encode_basestring ''content'')"
    by (simp_all only: utf8_valid_encode_basestring)
  moreover have "utf8_valid (encode_basestring role)" and "utf8_valid (encode_basestring content)"
    using assms by (simp_all only: utf8_valid_encode_basestring)
  ultimately show ?thesis
    by (simp add: turn_chunks_def utf8_valid_indent)
qed

lemma valid_turns_chunks:
  assumes "utf8_valid buf" and "\<forall>t \<in> set turns. utf8_valid (fst t) \<and> utf8_valid (snd t)"
  shows "list_all utf8_valid (turns_chunks buf turns)"
  using assms
proof (induction turns arbitrary: buf)
  case Nil
  show ?case by simp
next
  case (Cons t turns)
  have "list_all utf8_valid (turns_chunks (CHR '','' # newline_indent (Suc 0)) turns)"
    using Cons.prems(2) by (intro Cons.IH) (simp_all add: utf8_valid_indent)
  then show ?case
    using Cons.prems valid_turn_chunks [of "fst t" "snd t"] by simp
qed

lemma valid_history_chunks:
  assumes "\<forall>t \<in> set turns. utf8_valid (fst t) \<and> utf8_valid (snd t)"
  shows "list_all utf8_valid
           (if turns = [] then [''[]'']
            else turns_chunks (CHR ''['' # newline_indent (Suc 0)) turns
                   @ [newline_indent 0, '']''])"
  using valid_turns_chunks [OF _ assms, of "CHR ''['' # newline_indent (Suc 0)"]
  by (simp add: utf8_valid_indent)

lemma save_history:
  assumes "conversation_history b = history_of turns"
    and "filename \<notin> set (read_only fs)"
    and "\<forall>t \<in> set turns. utf8_valid (fst t) \<and> utf8_valid (snd t)"
  shows "save_conversation (Suc (Suc k)) filename b fs
           = (None, fs\<lparr>files := AList.update filename (history_text turns) (files fs)\<rparr>)"
proof -
  let ?cs = "if turns = [] then [''[]'']
             else turns_chunks (CHR ''['' # newline_indent (Suc 0)) turns
                    @ [newline_indent 0, '']'']"
  have valid: "list_all utf8_valid ?cs"
    using assms(3) by (rule valid_history_chunks)
  then have "takeWhile utf8_valid ?cs = ?cs"
    by (simp only: takeWhile_eq_all_conv list_all_iff)
  then have "concat (takeWhile utf8_valid ?cs) = history_text turns"
    by (simp only: concat_history_chunks)
  then show ?thesis
    using assms(1,2) valid
    by (simp only: save_conversation_def iterencode_history yield_def) simp
qed

lemma utf8_valid_history_text:
  assumes "\<forall>t \<in> set turns. utf8_valid (fst t) \<and> utf8_valid (snd t)"
  shows "utf8_valid (history_text turns)"
  using utf8_valid_concat [OF valid_history_chunks [OF assms]]
  by (simp only: concat_history_chunks)

text \<open>The scanner on that text.\<close>

lemma parse_value_turn:
  "parse_value (Suc (Suc (Suc (Suc n)))) (Suc k) (turn_text role content @ rest)
     = Inr (turn role (JStr content), rest)"
proof -
  let ?second = "encode_basestring ''content'' @ '': '' @ encode_basestring content
                   @ newline_indent (Suc 0) @ CHR ''}'' # rest"
  let ?first = "encode_basestring ''role'' @ '': '' @ encode_basestring role
                  @ CHR '','' # newline_indent (Suc (Suc 0)) @ ?second"
  obtain t1 where t1: "?first = CHR 0x22 # t1"
    by (simp add: encode_basestring_def)
  obtain t2 where t2: "?second = CHR 0x22 # t2"
    by (simp add: encode_basestring_def)
  have shape: "turn_text role content @ rest = CHR ''{'' # newline_indent (Suc (Suc 0)) @ ?first"
    by (simp add: turn_text_def bracket_def numeral_2_eq_2)
  have "parse_value (Suc (Suc (Suc (Suc n)))) (Suc k)
          (CHR ''{'' # newline_indent (Suc (Suc 0)) @ ?first)
          = parse_members (Suc (Suc (Suc n))) k [] ?first"
    unfolding t1 by (rule parse_value_object)
  also have "\<dots> = parse_members (Suc (Suc n)) k (AList.update ''role'' (JStr role) []) ?second"
    unfolding t2 by (rule parse_members_more)
  also have "\<dots> = Inr (JObj (AList.update ''content'' (JStr content)
                                 (AList.update ''role'' (JStr role) [])), rest)"
    by (rule parse_members_last)
  also have "\<dots> = Inr (turn role (JStr content), rest)"
    by (simp add: turn_def)
  finally show ?thesis
    by (simp only: shape)
qed

lemma turn_text_opens: "\<exists>u. turn_text role content = CHR ''{'' # u"
  by (simp add: turn_text_def bracket_def)

lemma join_turn_texts_opens:
  "turns \<noteq> [] \<Longrightarrow> \<exists>u. join sep (turn_texts turns) @ rest = CHR ''{'' # u"
proof (cases turns)
  case Nil
  assume "turns \<noteq> []"
  with Nil show ?thesis by simp
next
  case (Cons t ts)
  obtain role content where t: "t = (role, content)"
    by (cases t)
  obtain u where u: "turn_text role content = CHR ''{'' # u"
    using turn_text_opens by blast
  show ?thesis
    using Cons t u by (cases ts) (simp_all add: turn_texts_def)
qed

lemma parse_elements_turns:
  assumes "turns \<noteq> []"
  shows "parse_elements (Suc (Suc (Suc (Suc (length turns + m))))) (Suc k) acc
           (join (CHR '','' # newline_indent (Suc 0)) (turn_texts turns)
              @ newline_indent 0 @ CHR '']'' # rest)
         = Inr (JArr (acc @ map (\<lambda>(role, content). turn role (JStr content)) turns), rest)"
  using assms
proof (induction turns arbitrary: acc rule: list_nonempty_induct)
  case (single t)
  obtain role content where t: "t = (role, content)"
    by (cases t)
  have v: "parse_value (Suc (Suc (Suc (Suc m)))) (Suc k)
             (turn_text role content @ newline_indent 0 @ CHR '']'' # rest)
           = Inr (turn role (JStr content), newline_indent 0 @ CHR '']'' # rest)"
    by (rule parse_value_turn)
  show ?case
    by (subst parse_elements.simps)
      (simp add: t turn_texts_def v skip_ws_newline_indent
        del: parse_value.simps parse_elements.simps)
next
  case (cons t turns)
  obtain role content where t: "t = (role, content)"
    by (cases t)
  let ?tail = "join (CHR '','' # newline_indent (Suc 0)) (turn_texts turns)
                 @ newline_indent 0 @ CHR '']'' # rest"
  obtain u where u: "?tail = CHR ''{'' # u"
    using join_turn_texts_opens [OF cons.hyps] by blast
  have texts: "join (CHR '','' # newline_indent (Suc 0)) (turn_texts (t # turns))
                 @ newline_indent 0 @ CHR '']'' # rest
               = turn_text role content @ CHR '','' # newline_indent (Suc 0) @ ?tail"
    using cons.hyps by (cases turns) (simp_all add: t turn_texts_def)
  have v: "parse_value (Suc (Suc (Suc (Suc (length turns + m))))) (Suc k)
             (turn_text role content @ CHR '','' # newline_indent (Suc 0) @ ?tail)
           = Inr (turn role (JStr content), CHR '','' # newline_indent (Suc 0) @ ?tail)"
    by (rule parse_value_turn)
  have skip: "skip_ws (newline_indent (Suc 0) @ ?tail) = ?tail"
    unfolding u by (rule skip_ws_newline_indent) simp_all
  have step: "parse_elements (Suc (Suc (Suc (Suc (Suc (length turns + m)))))) (Suc k) acc
          (join (CHR '','' # newline_indent (Suc 0)) (turn_texts (t # turns))
             @ newline_indent 0 @ CHR '']'' # rest)
        = parse_elements (Suc (Suc (Suc (Suc (length turns + m))))) (Suc k)
            (acc @ [turn role (JStr content)]) ?tail"
    unfolding texts
    by (subst parse_elements.simps)
      (simp add: v skip del: parse_value.simps parse_elements.simps)
  have fuel: "length (t # turns) + m = Suc (length turns + m)"
    by simp
  have "parse_elements (Suc (Suc (Suc (Suc (length (t # turns) + m))))) (Suc k) acc
          (join (CHR '','' # newline_indent (Suc 0)) (turn_texts (t # turns))
             @ newline_indent 0 @ CHR '']'' # rest)
        = Inr (JArr ((acc @ [turn role (JStr content)])
                       @ map (\<lambda>(role, content). turn role (JStr content)) turns), rest)"
    unfolding fuel step by (rule cons.IH)
  then show ?case
    by (simp add: t del: parse_value.simps parse_elements.simps)
qed

lemma parse_value_array:
  "parse_value (Suc n) (Suc k) (CHR ''['' # newline_indent level @ CHR ''{'' # t)
     = parse_elements n k [] (CHR ''{'' # t)"
  by (simp add: parse_value_bracket skip_ws_newline_indent
      del: parse_value.simps parse_elements.simps)

lemma length_join:
  "list_all (\<lambda>x. x \<noteq> []) items \<Longrightarrow> length items \<le> length (join sep items)"
proof (induction sep items rule: join.induct)
  case (1 sep)
  show ?case by simp
next
  case (2 sep x)
  then show ?case by (cases x) simp_all
next
  case (3 sep x y ys)
  then have rest: "length (y # ys) \<le> length (join sep (y # ys))"
    by simp
  have first: "0 < length x"
    using "3.prems" by simp
  have "length (join sep (x # y # ys)) = length x + length sep + length (join sep (y # ys))"
    and "length (x # y # ys) = Suc (length (y # ys))"
    by simp_all
  then show ?case
    using rest first by linarith
qed

lemma turn_text_nonempty: "turn_text role content \<noteq> []"
  by (simp add: turn_text_def bracket_def)

lemma length_turn_texts: "length turns \<le> length (join sep (turn_texts turns))"
proof -
  have "list_all (\<lambda>x. x \<noteq> []) (turn_texts turns)"
    by (induction turns) (simp_all add: turn_texts_def turn_text_nonempty split: prod.splits)
  then have "length (turn_texts turns) \<le> length (join sep (turn_texts turns))"
    by (rule length_join)
  moreover have "length (turn_texts turns) = length turns"
    by (simp add: turn_texts_def)
  ultimately show ?thesis
    by simp
qed

lemma json_loads_history:
  "json_loads (Suc (Suc k)) (history_text turns) = Inr (history_of turns)"
proof (cases "turns = []")
  case True
  then show ?thesis
    by (simp add: json_loads_def history_of_def history_text_def eval_nat_numeral)
next
  case False
  define doc where "doc = history_text turns"
  let ?items = "join (CHR '','' # newline_indent (Suc 0)) (turn_texts turns)"
  let ?tail = "?items @ newline_indent 0 @ [CHR '']'']"
  have doc: "doc = CHR ''['' # newline_indent (Suc 0) @ ?tail"
    using False by (simp add: doc_def history_text_def bracket_def)
  obtain u where u: "?tail = CHR ''{'' # u"
    using join_turn_texts_opens [OF False, of _ "newline_indent 0 @ [CHR '']'']"] by blast
  have "length turns + 3 \<le> 2 * length doc"
    using length_turn_texts [of turns "CHR '','' # newline_indent (Suc 0)"]
    by (simp add: doc)
  then have fuel: "2 * length doc + 2
      = Suc (Suc (Suc (Suc (Suc (length turns + (2 * length doc - length turns - 3))))))"
    by simp
  let ?m = "2 * length doc - length turns - 3"
  have elements: "parse_elements (Suc (Suc (Suc (Suc (length turns + ?m))))) (Suc k) [] ?tail
                    = Inr (history_of turns, [])"
    using parse_elements_turns [OF False, of ?m k "[]" "[]"] by (simp add: history_of_def)
  have "skip_ws doc = doc"
    by (simp add: doc)
  then have "parse_value (2 * length doc + 2) (Suc (Suc k)) (skip_ws doc)
               = parse_value (Suc (Suc (Suc (Suc (Suc (length turns + ?m)))))) (Suc (Suc k))
                   (CHR ''['' # newline_indent (Suc 0) @ CHR ''{'' # u)"
    using fuel doc u by simp
  also have "\<dots> = parse_elements (Suc (Suc (Suc (Suc (length turns + ?m))))) (Suc k) []
                      (CHR ''{'' # u)"
    by (rule parse_value_array)
  also have "\<dots> = Inr (history_of turns, [])"
    using elements u by simp
  finally have "parse_value (2 * length doc + 2) (Suc (Suc k)) (skip_ws doc)
                  = Inr (history_of turns, [])" .
  then show ?thesis
    by (simp add: json_loads_def doc_def)
qed

text \<open>
  Claim C8 as stated fails: a history whose one turn holds a lone surrogate (here
  \<^verbatim>\<open>"\ud83d"\<close>) cannot be saved. The save raises \<^verbatim>\<open>UnicodeEncodeError\<close> and leaves the
  file with the text before the content, which a load refuses.
\<close>

theorem lone_surrogate_counterexample:
  "(case save_conversation 2 ''chat.json''
           (init_chatbot\<lparr>conversation_history :=
              history_of [(''user'', [CHR 0xED, CHR 0xA0, CHR 0xBD])]\<rparr>)
           \<lparr>files = [], read_only = []\<rparr> of
      (raised, fs') \<Rightarrow>
        raised = Some (Raises UnicodeEncodeError)
        \<and> map_of (files fs') ''chat.json''
            = Some (CHR ''['' # CHR 0x0A # ''  {'' @ CHR 0x0A # ''    '' @ CHR 0x22 # ''role''
                      @ CHR 0x22 # '': '' @ CHR 0x22 # ''user'' @ CHR 0x22 # '','' @ CHR 0x0A
                      # ''    '' @ CHR 0x22 # ''content'' @ CHR 0x22 # '': '')
        \<and> load_conversation 2 ''chat.json'' init_chatbot fs' = Inl (Raises JSONDecodeError))"
  by code_simp

text \<open>
  Claim C8, amended. Take a history that is a list of turns with a role and a content,
  both strings that UTF-8 can encode, which is every string without a lone surrogate.
  Saving it to a file that can be written and loading that file puts the same list of
  turns, in the same order, into the history. (The two levels of nesting of such a
  history must find room on the interpreter's stack.)
\<close>

theorem save_then_load_restores_history:
  assumes "conversation_history b = history_of turns"
    and "filename \<notin> set (read_only fs)"
    and "\<forall>t \<in> set turns. utf8_valid (fst t) \<and> utf8_valid (snd t)"
    and "2 \<le> room" and "2 \<le> room'"
  shows "\<exists>fs'. save_conversation room filename b fs = (None, fs')
           \<and> load_conversation room' filename b' fs'
               = Inr (b'\<lparr>conversation_history := history_of turns\<rparr>)"
proof -
  obtain k k' where room: "room = Suc (Suc k)" and room': "room' = Suc (Suc k')"
    using assms(4,5) by (metis Suc_le_D numeral_2_eq_2 Suc_le_mono)
  let ?fs' = "fs\<lparr>files := AList.update filename (history_text turns) (files fs)\<rparr>"
  have saved: "save_conversation room filename b fs = (None, ?fs')"
    unfolding room using assms(1,2,3) by (rule save_history)
  have "utf8_valid (history_text turns)"
    using assms(3) by (rule utf8_valid_history_text)
  moreover have "json_loads room' (history_text turns) = Inr (history_of turns)"
    unfolding room' by (rule json_loads_history)
  ultimately have "load_conversation room' filename b' ?fs'
                     = Inr (b'\<lparr>conversation_history := history_of turns\<rparr>)"
    by (simp add: load_conversation_def update_conv')
  with saved show ?thesis
    by blast
qed

theorem save_then_load_restores_history_witness:
  "conversation_history
     (init_chatbot\<lparr>conversation_history :=
        history_of [(''user'', ''hi''),
                    (''assistant'', [CHR 0x22, CHR ''a'', CHR 0x5C, CHR 0x0A, CHR 0x01,
                                     CHR 0xC3, CHR 0xA9])]\<rparr>)
     = history_of [(''user'', ''hi''),
                   (''assistant'', [CHR 0x22, CHR ''a'', CHR 0x5C, CHR 0x0A, CHR 0x01,
                                    CHR 0xC3, CHR 0xA9])]
   \<and> ''chat.json'' \<notin> set (read_only \<lparr>files = [], read_only = []\<rparr>)
   \<and> utf8_valid ''user'' \<and> utf8_valid ''hi'' \<and> utf8_valid ''assistant''
   \<and> utf8_valid [CHR 0x22, CHR ''a'', CHR 0x5C, CHR 0x0A, CHR 0x01, CHR 0xC3, CHR 0xA9]
   \<and> (\<exists>fs'. save_conversation 2 ''chat.json''
               (init_chatbot\<lparr>conversation_history :=
                  history_of [(''user'', ''hi''),
                              (''assistant'', [CHR 0x22, CHR ''a'', CHR 0x5C, CHR 0x0A, CHR 0x01,
                                               CHR 0xC3, CHR 0xA9])]\<rparr>)
               \<lparr>files = [], read_only = []\<rparr> = (None, fs')
          \<and> load_conversation 2 ''chat.json'' init_chatbot fs'
              = Inr (init_chatbot\<lparr>conversation_history :=
                  JArr [turn ''user'' (JStr ''hi''),
                        turn ''assistant''
                          (JStr [CHR 0x22, CHR ''a'', CHR 0x5C, CHR 0x0A, CHR 0x01,
                                 CHR 0xC3, CHR 0xA9])]\<rparr>))"
proof -
  let ?turns = "[(''user'', ''hi''),
                 (''assistant'', [CHR 0x22, CHR ''a'', CHR 0x5C, CHR 0x0A, CHR 0x01,
                                  CHR 0xC3, CHR 0xA9])]"
  have h1: "conversation_history (init_chatbot\<lparr>conversation_history := history_of ?turns\<rparr>)
              = history_of ?turns"
    by simp
  have h2: "''chat.json'' \<notin> set (read_only \<lparr>files = [], read_only = []\<rparr>)"
    by simp
  have v: "utf8_valid ''user''" "utf8_valid ''hi''" "utf8_valid ''assistant''"
    "utf8_valid [CHR 0x22, CHR ''a'', CHR 0x5C, CHR 0x0A, CHR 0x01, CHR 0xC3, CHR 0xA9]"
    by (simp_all add: lead_def continues_def)
  then have h3: "\<forall>t \<in> set ?turns. utf8_valid (fst t) \<and> utf8_valid (snd t)"
    by simp
  have h4: "2 \<le> (2 :: nat)"
    by simp
  have shape: "history_of ?turns
                 = JArr [turn ''user'' (JStr ''hi''),
                         turn ''assistant''
                           (JStr [CHR 0x22, CHR ''a'', CHR 0x5C, CHR 0x0A, CHR 0x01,
                                  CHR 0xC3, CHR 0xA9])]"
    by (simp add: history_of_def)
  show ?thesis
    using save_then_load_restores_history [OF h1 h2 h3 h4 h4, of init_chatbot] h1 h2 v
    by (simp only: shape) simp
qed

end
